theory Spec2Isabelle
  imports Complex_Main "HOL-Library.Multiset"
begin

section \<open>Floating-point values\<close>

text \<open>
  The values of Go's \<^verbatim>\<open>float64\<close> as far as \<^verbatim>\<open>stats/sample.go\<close> distinguishes them:
  the three special values and the finite numbers.  The special values follow IEEE 754
  (NaN is contagious and unordered, \<open>\<infinity> - \<infinity>\<close>, \<open>0 * \<infinity>\<close>, \<open>0 / 0\<close> and
  \<open>\<infinity> / \<infinity>\<close> are NaN, a non-zero number divided by zero is an infinity).  Finite
  arithmetic is idealised: results are exact, there is no rounding and no overflow.
  The results below that hold for all inputs use of the finite arithmetic only steps
  that binary64 performs exactly (comparisons, a product with zero, a sum with zero, a
  division by zero), and the inputs that are evaluated are small integers and quarters.
  Zero carries no sign; every zero divisor that the source can produce
  (\<^verbatim>\<open>float64(k)\<close> with \<open>k = 0\<close>, \<^verbatim>\<open>float64(k-1)\<close> with \<open>k = 1\<close>, and a running sum
  that started at \<^verbatim>\<open>0.0\<close>) is the positive zero, and that is how a zero divisor is read.
\<close>

datatype float64 = NaN | NegInf | Fin real | PosInf

fun fneg :: "float64 \<Rightarrow> float64" where
  "fneg NaN = NaN"
| "fneg NegInf = PosInf"
| "fneg PosInf = NegInf"
| "fneg (Fin a) = Fin (- a)"

fun fadd :: "float64 \<Rightarrow> float64 \<Rightarrow> float64" where
  "fadd NaN y = NaN"
| "fadd x NaN = NaN"
| "fadd (Fin a) (Fin b) = Fin (a + b)"
| "fadd (Fin a) y = y"
| "fadd x (Fin b) = x"
| "fadd PosInf PosInf = PosInf"
| "fadd NegInf NegInf = NegInf"
| "fadd PosInf NegInf = NaN"
| "fadd NegInf PosInf = NaN"

definition fsub :: "float64 \<Rightarrow> float64 \<Rightarrow> float64" where
  "fsub x y = fadd x (fneg y)"

text \<open>The sign of an infinite product or quotient: \<open>True\<close> is positive.\<close>

definition signed_inf :: "bool \<Rightarrow> float64" where
  "signed_inf pos = (if pos then PosInf else NegInf)"

fun fmul :: "float64 \<Rightarrow> float64 \<Rightarrow> float64" where
  "fmul NaN y = NaN"
| "fmul x NaN = NaN"
| "fmul (Fin a) (Fin b) = Fin (a * b)"
| "fmul (Fin a) PosInf = (if a = 0 then NaN else signed_inf (0 < a))"
| "fmul (Fin a) NegInf = (if a = 0 then NaN else signed_inf (a < 0))"
| "fmul PosInf (Fin b) = (if b = 0 then NaN else signed_inf (0 < b))"
| "fmul NegInf (Fin b) = (if b = 0 then NaN else signed_inf (b < 0))"
| "fmul PosInf PosInf = PosInf"
| "fmul NegInf NegInf = PosInf"
| "fmul PosInf NegInf = NegInf"
| "fmul NegInf PosInf = NegInf"

fun fdiv :: "float64 \<Rightarrow> float64 \<Rightarrow> float64" where
  "fdiv NaN y = NaN"
| "fdiv x NaN = NaN"
| "fdiv (Fin a) (Fin b) =
     (if b = 0 then (if a = 0 then NaN else signed_inf (0 < a)) else Fin (a / b))"
| "fdiv (Fin a) y = Fin 0"
| "fdiv PosInf (Fin b) = signed_inf (0 \<le> b)"
| "fdiv NegInf (Fin b) = signed_inf (b < 0)"
| "fdiv x y = NaN"

text \<open>\<^verbatim>\<open>math.Sqrt\<close>: NaN for NaN and for negative arguments, \<open>+\<infinity>\<close> for \<open>+\<infinity>\<close>.\<close>

fun fsqrt :: "float64 \<Rightarrow> float64" where
  "fsqrt (Fin a) = (if a < 0 then NaN else Fin (sqrt a))"
| "fsqrt PosInf = PosInf"
| "fsqrt x = NaN"

text \<open>Comparisons: every comparison with NaN is false, also \<^verbatim>\<open>==\<close>.\<close>

fun flt :: "float64 \<Rightarrow> float64 \<Rightarrow> bool" where
  "flt NaN y = False"
| "flt x NaN = False"
| "flt (Fin a) (Fin b) = (a < b)"
| "flt x NegInf = False"
| "flt NegInf y = True"
| "flt PosInf y = False"
| "flt x PosInf = True"

definition feq :: "float64 \<Rightarrow> float64 \<Rightarrow> bool" where
  "feq x y = (x \<noteq> NaN \<and> x = y)"

definition fgt :: "float64 \<Rightarrow> float64 \<Rightarrow> bool" where
  "fgt x y = flt y x"

definition fle :: "float64 \<Rightarrow> float64 \<Rightarrow> bool" where
  "fle x y = (flt x y \<or> feq x y)"

definition fge :: "float64 \<Rightarrow> float64 \<Rightarrow> bool" where
  "fge x y = fle y x"

definition IsNaN :: "float64 \<Rightarrow> bool" where
  "IsNaN x = (x = NaN)"

text \<open>\<^verbatim>\<open>math.IsInf(f, 0)\<close>: either infinity.\<close>

definition IsInf0 :: "float64 \<Rightarrow> bool" where
  "IsInf0 x = (x = PosInf \<or> x = NegInf)"

text \<open>The conversion \<^verbatim>\<open>float64(n)\<close> of an \<^verbatim>\<open>int\<close>.\<close>

definition float64_of_int :: "int \<Rightarrow> float64" where
  "float64_of_int n = Fin (of_int n)"

section \<open>Panics\<close>

text \<open>
  A panic of the Go runtime is the left summand of the result.  \<open>Unspecified\<close> stands
  for the conversion \<^verbatim>\<open>int(f)\<close> of a NaN or an infinity, whose value the Go
  specification leaves to the implementation.
\<close>

datatype error = IndexOutOfRange | Panic string | Unspecified

section \<open>The sample\<close>

text \<open>\<^verbatim>\<open>Weights\<close> is \<open>None\<close> for the nil slice and \<open>Some ws\<close> otherwise.\<close>

record Sample =
  Xs :: "float64 list"
  Weights :: "float64 list option"
  Sorted :: bool

section \<open>Standard deviation\<close>

text \<open>One turn of the loop of \<^verbatim>\<open>StdDev\<close> on the state \<open>(A, Q, k)\<close>.\<close>

fun StdDev_step :: "float64 \<times> float64 \<times> int \<Rightarrow> float64 \<Rightarrow> float64 \<times> float64 \<times> int" where
  "StdDev_step (A, Q, k) x =
     (let Anext = fadd A (fdiv (fsub x A) (float64_of_int k));
          Q' = fadd Q (fmul (fsub x A) (fsub x Anext))
      in (Anext, Q', k + 1))"

definition StdDev :: "float64 list \<Rightarrow> float64" where
  "StdDev xs =
     (if length xs = 0 then NaN
      else (case foldl StdDev_step (Fin 0, Fin 0, 0) xs of
              (A, Q, k) \<Rightarrow> fsqrt (fdiv Q (float64_of_int (k - 1)))))"

definition Sample_StdDev :: "Sample \<Rightarrow> error + float64" where
  "Sample_StdDev s =
     (if length (Xs s) = 0 \<or> Weights s = None then Inr (StdDev (Xs s))
      else Inl (Panic ''Weighted StdDev not implemented''))"

section \<open>Bounds\<close>

text \<open>An indexed read \<^verbatim>\<open>xs[i]\<close>; out of range it panics.\<close>

definition index :: "'a list \<Rightarrow> nat \<Rightarrow> error + 'a" where
  "index xs i = (if i < length xs then Inr (xs ! i) else Inl IndexOutOfRange)"

text \<open>\<^verbatim>\<open>w != 0\<close>; true for a NaN.\<close>

definition nonzero :: "float64 \<Rightarrow> bool" where
  "nonzero w = (\<not> feq w (Fin 0))"

fun Bounds_step :: "float64 \<times> float64 \<Rightarrow> float64 \<Rightarrow> float64 \<times> float64" where
  "Bounds_step (mn, mx) x = (if flt x mn then x else mn, if fgt x mx then x else mx)"

definition Bounds :: "float64 list \<Rightarrow> float64 \<times> float64" where
  "Bounds xs =
     (if length xs = 0 then (NaN, NaN)
      else foldl Bounds_step (xs ! 0, xs ! 0) xs)"

text \<open>
  The first loop of the sorted, weighted branch: the value at the first index whose
  weight is not zero, NaN when there is none.  \<open>i\<close> is the index of the head of the
  remaining weights.
\<close>

fun min_scan :: "float64 list \<Rightarrow> float64 list \<Rightarrow> nat \<Rightarrow> error + float64" where
  "min_scan [] xs i = Inr NaN"
| "min_scan (w # ws) xs i = (if nonzero w then index xs i else min_scan ws xs (Suc i))"

text \<open>
  The second loop, which walks the indices \<open>j = len(s.Weights) - i - 1\<close> downwards;
  the last argument is the number of indices not yet visited.
\<close>

fun max_scan :: "float64 list \<Rightarrow> float64 list \<Rightarrow> nat \<Rightarrow> error + float64" where
  "max_scan ws xs 0 = Inr NaN"
| "max_scan ws xs (Suc j) = (if nonzero (ws ! j) then index xs j else max_scan ws xs j)"

text \<open>The loop of the unsorted, weighted branch; \<^verbatim>\<open>s.Weights[i]\<close> panics past the end.\<close>

fun wbounds_scan ::
  "float64 list \<Rightarrow> float64 list \<Rightarrow> float64 \<times> float64 \<Rightarrow> error + float64 \<times> float64" where
  "wbounds_scan [] ws acc = Inr acc"
| "wbounds_scan (x # xs) [] acc = Inl IndexOutOfRange"
| "wbounds_scan (x # xs) (w # ws) (mn, mx) =
     wbounds_scan xs ws
       (if flt x mn \<and> nonzero w then x else mn, if fgt x mx \<and> nonzero w then x else mx)"

definition Sample_Bounds :: "Sample \<Rightarrow> error + float64 \<times> float64" where
  "Sample_Bounds s =
     (if length (Xs s) = 0 \<or> (\<not> Sorted s \<and> Weights s = None) then Inr (Bounds (Xs s))
      else if Sorted s then
        (case Weights s of
           None \<Rightarrow> Inr (Xs s ! 0, Xs s ! (length (Xs s) - 1))
         | Some ws \<Rightarrow>
             (case min_scan ws (Xs s) 0 of
                Inl e \<Rightarrow> Inl e
              | Inr mn \<Rightarrow>
                  if IsNaN mn then Inr (mn, NaN)
                  else (case max_scan ws (Xs s) (length ws) of
                          Inl e \<Rightarrow> Inl e
                        | Inr mx \<Rightarrow> Inr (mn, mx))))
      else
        (case wbounds_scan (Xs s) (the (Weights s)) (PosInf, NegInf) of
           Inl e \<Rightarrow> Inl e
         | Inr (mn, mx) \<Rightarrow> if IsInf0 mn then Inr (NaN, NaN) else Inr (mn, mx)))"

section \<open>Sum and weight\<close>

definition Sum :: "float64 list \<Rightarrow> float64" where
  "Sum xs = foldl fadd (Fin 0) xs"

fun wsum_scan :: "float64 list \<Rightarrow> float64 list \<Rightarrow> float64 \<Rightarrow> error + float64" where
  "wsum_scan [] ws acc = Inr acc"
| "wsum_scan (x # xs) [] acc = Inl IndexOutOfRange"
| "wsum_scan (x # xs) (w # ws) acc = wsum_scan xs ws (fadd acc (fmul x w))"

definition Sample_Sum :: "Sample \<Rightarrow> error + float64" where
  "Sample_Sum s =
     (case Weights s of
        None \<Rightarrow> Inr (Sum (Xs s))
      | Some ws \<Rightarrow> wsum_scan (Xs s) ws (Fin 0))"

definition Weight :: "Sample \<Rightarrow> float64" where
  "Weight s =
     (case Weights s of
        None \<Rightarrow> float64_of_int (int (length (Xs s)))
      | Some ws \<Rightarrow> Sum ws)"

section \<open>Mean\<close>

text \<open>The loop of \<^verbatim>\<open>Mean\<close>; \<open>i\<close> is the index of the head of the remaining values.\<close>

fun Mean_loop :: "float64 list \<Rightarrow> int \<Rightarrow> float64 \<Rightarrow> float64" where
  "Mean_loop [] i m = m"
| "Mean_loop (x # xs) i m =
     Mean_loop xs (i + 1) (fadd m (fdiv (fsub x m) (float64_of_int (i + 1))))"

definition Mean :: "float64 list \<Rightarrow> float64" where
  "Mean xs = (if length xs = 0 then NaN else Mean_loop xs 0 (Fin 0))"

text \<open>The loop of the weighted mean on the state \<open>(m, wsum)\<close>.\<close>

fun wmean_scan ::
  "float64 list \<Rightarrow> float64 list \<Rightarrow> float64 \<times> float64 \<Rightarrow> error + float64" where
  "wmean_scan [] ws (m, wsum) = Inr m"
| "wmean_scan (x # xs) [] (m, wsum) = Inl IndexOutOfRange"
| "wmean_scan (x # xs) (w # ws) (m, wsum) =
     (let wsum' = fadd wsum w;
          m' = fadd m (fdiv (fmul (fsub x m) w) wsum')
      in wmean_scan xs ws (m', wsum'))"

definition Sample_Mean :: "Sample \<Rightarrow> error + float64" where
  "Sample_Mean s =
     (if length (Xs s) = 0 \<or> Weights s = None then Inr (Mean (Xs s))
      else wmean_scan (Xs s) (the (Weights s)) (Fin 0, Fin 0))"

section \<open>Sorting\<close>

text \<open>
  The functions of Go's \<^verbatim>\<open>sort\<close> package that \<^verbatim>\<open>Sort\<close> calls.
  \<^verbatim>\<open>Float64Slice.Less\<close> orders NaN before every other value.
\<close>

definition f64_less :: "float64 \<Rightarrow> float64 \<Rightarrow> bool" where
  "f64_less x y = (flt x y \<or> (IsNaN x \<and> \<not> IsNaN y))"

text \<open>\<^verbatim>\<open>sort.Float64sAreSorted\<close>: no element is less than its predecessor.\<close>

fun Float64sAreSorted :: "float64 list \<Rightarrow> bool" where
  "Float64sAreSorted [] = True"
| "Float64sAreSorted [x] = True"
| "Float64sAreSorted (x # y # ys) = (\<not> f64_less y x \<and> Float64sAreSorted (y # ys))"

text \<open>
  \<^verbatim>\<open>sort.Float64s\<close> sorts in the order of \<^verbatim>\<open>Float64Slice.Less\<close>; values that
  this order does not separate are the same value, so the result does not depend on
  the sorting algorithm.  It is written here as an insertion sort.
\<close>

fun f64_insert :: "float64 \<Rightarrow> float64 list \<Rightarrow> float64 list" where
  "f64_insert x [] = [x]"
| "f64_insert x (y # ys) = (if f64_less x y then x # y # ys else y # f64_insert x ys)"

definition Float64s :: "float64 list \<Rightarrow> float64 list" where
  "Float64s xs = foldr f64_insert xs []"

text \<open>The \<^verbatim>\<open>sampleSorter\<close> and its three methods.\<close>

record sampleSorter =
  sorter_xs :: "float64 list"
  sorter_weights :: "float64 list"

definition Len :: "sampleSorter \<Rightarrow> nat" where
  "Len p = length (sorter_xs p)"

definition Less :: "sampleSorter \<Rightarrow> nat \<Rightarrow> nat \<Rightarrow> bool" where
  "Less p i j = flt (sorter_xs p ! i) (sorter_xs p ! j)"

definition Swap :: "sampleSorter \<Rightarrow> nat \<Rightarrow> nat \<Rightarrow> error + sampleSorter" where
  "Swap p i j =
     (if i < length (sorter_xs p) \<and> j < length (sorter_xs p) \<and> i < length (sorter_weights p) \<and> j < length (sorter_weights p)
      then Inr \<lparr>sorter_xs = (sorter_xs p)[i := sorter_xs p ! j, j := sorter_xs p ! i],
                sorter_weights = (sorter_weights p)[i := sorter_weights p ! j, j := sorter_weights p ! i]\<rparr>
      else Inl IndexOutOfRange)"

text \<open>
  \<^verbatim>\<open>sort.Sort\<close> drives the three methods.  It is modelled by the insertion sort that
  the library itself runs on short slices: the element at \<open>j\<close> is swapped downwards
  while it is \<^verbatim>\<open>Less\<close> than its predecessor.
\<close>

fun insert_loop :: "sampleSorter \<Rightarrow> nat \<Rightarrow> error + sampleSorter" where
  "insert_loop p 0 = Inr p"
| "insert_loop p (Suc j) =
     (if Less p (Suc j) j
      then (case Swap p (Suc j) j of Inl e \<Rightarrow> Inl e | Inr p' \<Rightarrow> insert_loop p' j)
      else Inr p)"

text \<open>The outer loop from index \<open>i\<close>, with \<open>k\<close> indices still to insert.\<close>

fun insertionSort :: "sampleSorter \<Rightarrow> nat \<Rightarrow> nat \<Rightarrow> error + sampleSorter" where
  "insertionSort p i 0 = Inr p"
| "insertionSort p i (Suc k) =
     (case insert_loop p i of Inl e \<Rightarrow> Inl e | Inr p' \<Rightarrow> insertionSort p' (Suc i) k)"

definition sort_Sort :: "sampleSorter \<Rightarrow> error + sampleSorter" where
  "sort_Sort p = insertionSort p 1 (Len p - 1)"

text \<open>
  \<^verbatim>\<open>Sort\<close> mutates its receiver and returns it; the model returns the receiver's
  new contents.
\<close>

definition Sort :: "Sample \<Rightarrow> error + Sample" where
  "Sort s =
     (if Sorted s \<or> Float64sAreSorted (Xs s) then Inr (s\<lparr>Sorted := True\<rparr>)
      else (case Weights s of
              None \<Rightarrow> Inr (s\<lparr>Xs := Float64s (Xs s), Sorted := True\<rparr>)
            | Some ws \<Rightarrow>
                (case sort_Sort \<lparr>sorter_xs = Xs s, sorter_weights = ws\<rparr> of
                   Inl e \<Rightarrow> Inl e
                 | Inr p \<Rightarrow> Inr \<lparr>Xs = sorter_xs p, Weights = Some (sorter_weights p), Sorted = True\<rparr>)))"

text \<open>\<^verbatim>\<open>Copy\<close>: element-wise duplicates of both slices, nil weights stay nil.\<close>

definition Copy :: "Sample \<Rightarrow> Sample" where
  "Copy s =
     \<lparr>Xs = map (\<lambda>x. x) (Xs s),
      Weights = (case Weights s of None \<Rightarrow> None | Some ws \<Rightarrow> Some (map (\<lambda>w. w) ws)),
      Sorted = Sorted s\<rparr>"

section \<open>Percentile and interquartile range\<close>

text \<open>
  The conversion \<^verbatim>\<open>int(f)\<close> truncates towards zero; for NaN and the infinities
  its value is left to the implementation.
\<close>

fun int_of_float64 :: "float64 \<Rightarrow> int option" where
  "int_of_float64 (Fin a) = Some (if 0 \<le> a then \<lfloor>a\<rfloor> else \<lceil>a\<rceil>)"
| "int_of_float64 x = None"

text \<open>The weighted scan; \<open>i\<close> is the index of the head of the remaining weights.\<close>

fun percentile_scan ::
  "float64 list \<Rightarrow> float64 list \<Rightarrow> nat \<Rightarrow> float64 \<Rightarrow> error + float64" where
  "percentile_scan [] vs i target = index vs (length vs - 1)"
| "percentile_scan (w # ws) vs i target =
     (let target' = fsub target w
      in if flt target' (Fin 0) then index vs i else percentile_scan ws vs (Suc i) target')"

text \<open>The part of \<^verbatim>\<open>Percentile\<close> after the sample has been sorted.\<close>

definition percentile_sorted :: "Sample \<Rightarrow> float64 \<Rightarrow> error + float64" where
  "percentile_sorted s pctile =
     (case Weights s of
        None \<Rightarrow>
          (case int_of_float64 (fmul pctile (float64_of_int (int (length (Xs s)) - 1))) of
             None \<Rightarrow> Inl Unspecified
           | Some k \<Rightarrow> if k < 0 then Inl IndexOutOfRange else index (Xs s) (nat k))
      | Some ws \<Rightarrow> percentile_scan ws (Xs s) 0 (fmul (Weight s) pctile))"

definition Percentile :: "Sample \<Rightarrow> float64 \<Rightarrow> error + float64" where
  "Percentile s pctile =
     (if length (Xs s) = 0 then Inr NaN
      else if fle pctile (Fin 0) then
        (case Sample_Bounds s of Inl e \<Rightarrow> Inl e | Inr (mn, mx) \<Rightarrow> Inr mn)
      else if fge pctile (Fin 1) then
        (case Sample_Bounds s of Inl e \<Rightarrow> Inl e | Inr (mn, mx) \<Rightarrow> Inr mx)
      else if \<not> Sorted s then
        (case Sort (Copy s) of Inl e \<Rightarrow> Inl e | Inr s' \<Rightarrow> percentile_sorted s' pctile)
      else percentile_sorted s pctile)"

definition IQR :: "Sample \<Rightarrow> error + float64" where
  "IQR s =
     (case (if \<not> Sorted s then Sort (Copy s) else Inr s) of
        Inl e \<Rightarrow> Inl e
      | Inr s' \<Rightarrow>
          (case Percentile s' (Fin (3 / 4)) of
             Inl e \<Rightarrow> Inl e
           | Inr hi \<Rightarrow>
               (case Percentile s' (Fin (1 / 4)) of
                  Inl e \<Rightarrow> Inl e
                | Inr lo \<Rightarrow> Inr (fsub hi lo))))"

section \<open>The store\<close>

text \<open>
  \<^verbatim>\<open>Sort\<close> writes into the arrays behind the two slices of its receiver, and a
  \<^verbatim>\<open>Sample\<close> passed by value still shares those arrays with the caller.  The store
  holds the arrays by address; a slice is the address of its array (the source takes
  no sub-slices), \<open>None\<close> for the nil slice.  \<^verbatim>\<open>make\<close> allocates at the end of
  the store.
\<close>

type_synonym addr = nat
type_synonym store = "float64 list list"

record SampleRef =
  XsRef :: "addr option"
  WeightsRef :: "addr option"
  SortedFlag :: bool

fun slice :: "store \<Rightarrow> addr option \<Rightarrow> float64 list" where
  "slice st None = []"
| "slice st (Some a) = st ! a"

fun put_array :: "store \<Rightarrow> addr option \<Rightarrow> float64 list \<Rightarrow> store" where
  "put_array st None vs = st"
| "put_array st (Some a) vs = st[a := vs]"

definition load :: "store \<Rightarrow> SampleRef \<Rightarrow> Sample" where
  "load st r =
     \<lparr>Xs = slice st (XsRef r),
      Weights = (case WeightsRef r of None \<Rightarrow> None | Some a \<Rightarrow> Some (st ! a)),
      Sorted = SortedFlag r\<rparr>"

definition valid :: "store \<Rightarrow> SampleRef \<Rightarrow> bool" where
  "valid st r =
     ((case XsRef r of None \<Rightarrow> True | Some a \<Rightarrow> a < length st) \<and>
      (case WeightsRef r of None \<Rightarrow> True | Some a \<Rightarrow> a < length st))"

text \<open>\<^verbatim>\<open>Copy\<close> allocates one fresh array for the values and one for non-nil weights.\<close>

definition Copy_st :: "store \<Rightarrow> SampleRef \<Rightarrow> store \<times> SampleRef" where
  "Copy_st st r =
     (let c = Copy (load st r);
          xa = length st;
          st1 = st @ [Xs c]
      in case Weights c of
           None \<Rightarrow> (st1, \<lparr>XsRef = Some xa, WeightsRef = None, SortedFlag = Sorted c\<rparr>)
         | Some ws \<Rightarrow>
             (st1 @ [ws], \<lparr>XsRef = Some xa, WeightsRef = Some (Suc xa), SortedFlag = Sorted c\<rparr>))"

text \<open>
  \<^verbatim>\<open>Sort\<close> writes the sorted values and weights back into the receiver's arrays and
  sets the flag of the receiver.  When both slices are the same array each \<^verbatim>\<open>Swap\<close>
  undoes itself and the array stays as it is.
\<close>

definition Sort_st :: "store \<Rightarrow> SampleRef \<Rightarrow> error + store \<times> SampleRef" where
  "Sort_st st r =
     (if XsRef r \<noteq> None \<and> XsRef r = WeightsRef r then Inr (st, r\<lparr>SortedFlag := True\<rparr>)
      else (case Sort (load st r) of
              Inl e \<Rightarrow> Inl e
            | Inr s' \<Rightarrow>
                Inr (put_array (put_array st (XsRef r) (Xs s')) (WeightsRef r) (the (Weights s')),
                     r\<lparr>SortedFlag := True\<rparr>)))"

text \<open>\<^verbatim>\<open>*s.Copy().Sort()\<close>\<close>

definition sorted_copy_st :: "store \<Rightarrow> SampleRef \<Rightarrow> error + store \<times> SampleRef" where
  "sorted_copy_st st r = (case Copy_st st r of (st1, c) \<Rightarrow> Sort_st st1 c)"

text \<open>
  \<^verbatim>\<open>Percentile\<close> and \<^verbatim>\<open>IQR\<close> on the store.  The receiver is passed by value, so
  the caller's struct (and its flag) is out of their reach; what they could change is
  the store, which they return.
\<close>

definition Percentile_st :: "store \<Rightarrow> SampleRef \<Rightarrow> float64 \<Rightarrow> error + store \<times> float64" where
  "Percentile_st st r pctile =
     (if length (Xs (load st r)) = 0 then Inr (st, NaN)
      else if fle pctile (Fin 0) then
        (case Sample_Bounds (load st r) of Inl e \<Rightarrow> Inl e | Inr (mn, mx) \<Rightarrow> Inr (st, mn))
      else if fge pctile (Fin 1) then
        (case Sample_Bounds (load st r) of Inl e \<Rightarrow> Inl e | Inr (mn, mx) \<Rightarrow> Inr (st, mx))
      else if \<not> SortedFlag r then
        (case sorted_copy_st st r of
           Inl e \<Rightarrow> Inl e
         | Inr (st', r') \<Rightarrow>
             (case percentile_sorted (load st' r') pctile of
                Inl e \<Rightarrow> Inl e
              | Inr v \<Rightarrow> Inr (st', v)))
      else (case percentile_sorted (load st r) pctile of
              Inl e \<Rightarrow> Inl e
            | Inr v \<Rightarrow> Inr (st, v)))"

definition IQR_st :: "store \<Rightarrow> SampleRef \<Rightarrow> error + store \<times> float64" where
  "IQR_st st r =
     (case (if \<not> SortedFlag r then sorted_copy_st st r else Inr (st, r)) of
        Inl e \<Rightarrow> Inl e
      | Inr (st1, r1) \<Rightarrow>
          (case Percentile_st st1 r1 (Fin (3 / 4)) of
             Inl e \<Rightarrow> Inl e
           | Inr (st2, hi) \<Rightarrow>
               (case Percentile_st st2 r1 (Fin (1 / 4)) of
                  Inl e \<Rightarrow> Inl e
                | Inr (st3, lo) \<Rightarrow> Inr (st3, fsub hi lo))))"


text \<open>The statement \<^verbatim>\<open>if !s.Sorted { s = *s.Copy().Sort() }\<close>, on the store and on values.\<close>

definition ensure_sorted_st :: "store \<Rightarrow> SampleRef \<Rightarrow> error + store \<times> SampleRef" where
  "ensure_sorted_st st r = (if \<not> SortedFlag r then sorted_copy_st st r else Inr (st, r))"

definition ensure_sorted :: "Sample \<Rightarrow> error + Sample" where
  "ensure_sorted s = (if \<not> Sorted s then Sort (Copy s) else Inr s)"


section \<open>Notions used in the statements\<close>

text \<open>
  A sequence of values is ascending when every element is \<^verbatim>\<open><=\<close> every later one.
  A NaN is \<^verbatim>\<open><=\<close> nothing, so an ascending sequence of two or more values has no NaN.
\<close>

definition ascending :: "float64 list \<Rightarrow> bool" where
  "ascending vs = sorted_wrt fle vs"

text \<open>
  The values with support: those whose weight is not zero, in the order of the sample;
  the first and the last of them, NaN when there is none.
\<close>

definition supported :: "float64 list \<Rightarrow> float64 list \<Rightarrow> float64 list" where
  "supported vs ws = map fst (filter (\<lambda>(x, w). nonzero w) (zip vs ws))"

definition first_supported :: "float64 list \<Rightarrow> float64 list \<Rightarrow> float64" where
  "first_supported vs ws = (case supported vs ws of [] \<Rightarrow> NaN | x # _ \<Rightarrow> x)"

definition last_supported :: "float64 list \<Rightarrow> float64 list \<Rightarrow> float64" where
  "last_supported vs ws = (case rev (supported vs ws) of [] \<Rightarrow> NaN | x # _ \<Rightarrow> x)"

text \<open>
  Removing the zero-weight entries of a weighted sample: each value whose weight is 0
  goes, together with its weight; the flag stays.  A sample without weights has none.
\<close>

definition keep_supported :: "float64 list \<Rightarrow> float64 list \<Rightarrow> (float64 \<times> float64) list" where
  "keep_supported vs ws = filter (\<lambda>(x, w). nonzero w) (zip vs ws)"

definition remove_zero_weights :: "Sample \<Rightarrow> Sample" where
  "remove_zero_weights s =
     (case Weights s of
        None \<Rightarrow> s
      | Some ws \<Rightarrow>
          s\<lparr>Xs := map fst (keep_supported (Xs s) ws),
            Weights := Some (map snd (keep_supported (Xs s) ws))\<rparr>)"

text \<open>Finite values.\<close>

fun is_finite :: "float64 \<Rightarrow> bool" where
  "is_finite (Fin a) = True"
| "is_finite x = False"

section \<open>The insertion sort on value/weight pairs\<close>

text \<open>
  What the loops of \<open>insertionSort\<close> do to the list of value/weight pairs of a sorter
  whose two slices have the same length: the next pair moves down through the sorted
  prefix (read from its end, hence reversed) while its value is less than its
  predecessor's.
\<close>

definition pairs :: "sampleSorter \<Rightarrow> (float64 \<times> float64) list" where
  "pairs p = zip (sorter_xs p) (sorter_weights p)"

fun insert_down :: "float64 \<times> float64 \<Rightarrow> (float64 \<times> float64) list \<Rightarrow> (float64 \<times> float64) list" where
  "insert_down x [] = [x]"
| "insert_down x (y # ys) = (if flt (fst x) (fst y) then y # insert_down x ys else x # y # ys)"

definition insert_up :: "float64 \<times> float64 \<Rightarrow> (float64 \<times> float64) list \<Rightarrow> (float64 \<times> float64) list" where
  "insert_up x a = rev (insert_down x (rev a))"

fun isort_pairs :: "(float64 \<times> float64) list \<Rightarrow> (float64 \<times> float64) list \<Rightarrow> (float64 \<times> float64) list" where
  "isort_pairs a [] = a"
| "isort_pairs a (x # c) = isort_pairs (insert_up x a) c"

definition balanced :: "sampleSorter \<Rightarrow> bool" where
  "balanced p = (length (sorter_xs p) = length (sorter_weights p))"

section \<open>Results on the standard deviation\<close>

lemma StdDev_step_first:
  "StdDev_step (Fin 0, Fin 0, 0) (Fin 1) = (PosInf, NegInf, 1)"
  by (simp add: fsub_def float64_of_int_def signed_inf_def)

lemma StdDev_step_second:
  "StdDev_step (PosInf, NegInf, 1) (Fin 1) = (NaN, NaN, 2)"
  by (simp add: fsub_def float64_of_int_def signed_inf_def)

text \<open>
  The first division of the loop is by \<open>float64(0)\<close>, so after one element the running
  mean is infinite or NaN, after two the sum of squares is NaN, and no input has a
  standard deviation other than NaN.
\<close>

lemma StdDev_step_NaN: "StdDev_step (A, NaN, k) x = (fadd A (fdiv (fsub x A) (float64_of_int k)), NaN, k + 1)"
  by (simp add: Let_def)

lemma foldl_StdDev_step_NaN: "\<exists>A. foldl StdDev_step (A0, NaN, k) xs = (A, NaN, k + int (length xs))"
proof (induction xs arbitrary: A0 k)
  case Nil
  then show ?case by simp
next
  case (Cons x xs)
  obtain A where "foldl StdDev_step (fadd A0 (fdiv (fsub x A0) (float64_of_int k)), NaN, k + 1) xs
      = (A, NaN, k + 1 + int (length xs))"
    using Cons [of "fadd A0 (fdiv (fsub x A0) (float64_of_int k))" "k + 1"] by blast
  then show ?case by (simp add: Let_def add.assoc)
qed

lemma StdDev_first_step:
  "\<exists>A Q. StdDev_step (Fin 0, Fin 0, 0) x = (A, Q, 1) \<and>
         (Q = NaN \<or> (Q = NegInf \<and> (A = PosInf \<or> A = NegInf)))"
  by (cases x) (auto simp: fsub_def float64_of_int_def signed_inf_def Let_def)

lemma StdDev_second_step:
  "A = PosInf \<or> A = NegInf \<Longrightarrow> \<exists>A'. StdDev_step (A, NegInf, 1) x = (A', NaN, 2)"
  by (cases x) (auto simp: fsub_def float64_of_int_def signed_inf_def Let_def)

lemma StdDev_always_NaN: "StdDev xs = NaN"
proof (cases xs)
  case Nil
  then show ?thesis by (simp add: StdDev_def)
next
  case (Cons x ys)
  obtain A Q where one: "StdDev_step (Fin 0, Fin 0, 0) x = (A, Q, 1)"
    and Q: "Q = NaN \<or> (Q = NegInf \<and> (A = PosInf \<or> A = NegInf))"
    using StdDev_first_step by blast
  have "\<exists>A' Q' k'. foldl StdDev_step (A, Q, 1) ys = (A', Q', k') \<and>
          fsqrt (fdiv Q' (float64_of_int (k' - 1))) = NaN"
  proof (cases "Q = NaN")
    case True
    then show ?thesis using foldl_StdDev_step_NaN [of A 1 ys] by auto
  next
    case False
    then have q: "Q = NegInf" and a: "A = PosInf \<or> A = NegInf" using Q by auto
    show ?thesis
    proof (cases ys)
      case Nil
      then show ?thesis using q by (simp add: float64_of_int_def signed_inf_def)
    next
      case (Cons y zs)
      obtain A' where "StdDev_step (A, NegInf, 1) y = (A', NaN, 2)"
        using StdDev_second_step [OF a] by blast
      then show ?thesis using foldl_StdDev_step_NaN [of A' 2 zs] Cons q by auto
    qed
  qed
  then show ?thesis using Cons one by (auto simp: StdDev_def simp del: StdDev_step.simps)
qed


text \<open>
  C1.  The claim is that the update for the element of index \<open>i\<close> divides by \<open>i + 1\<close>,
  so that a constant sequence of length above one has standard deviation 0.  The source
  divides by \<open>k\<close> before incrementing it, so the first division is by zero: on the
  constant sequence \<open>[1, 1]\<close> the running mean becomes \<open>+\<infinity>\<close>, then NaN, and the result
  is NaN, not 0.
\<close>

theorem C1_StdDev_constant_is_NaN:
  "StdDev [Fin 1, Fin 1] = NaN \<and> StdDev [Fin 1, Fin 1] \<noteq> Fin 0"
  by (simp add: StdDev_def StdDev_step_first StdDev_step_second float64_of_int_def
      del: StdDev_step.simps)

text \<open>
  C9.  As stated (every sample with weights present makes \<^verbatim>\<open>StdDev\<close> panic) the claim
  fails on the sample with no values and an empty, non-nil weight slice: the guard
  \<^verbatim>\<open>len(s.Xs) == 0\<close> comes first and the result is NaN.
\<close>

theorem C9_empty_weighted_counterexample:
  "Sample_StdDev \<lparr>Xs = [], Weights = Some [], Sorted = False\<rparr> = Inr NaN"
  by (simp add: Sample_StdDev_def StdDev_def)

text \<open>
  C9, amended.  For every sample with weights present and at least one value,
  \<^verbatim>\<open>StdDev\<close> panics with the message \<^verbatim>\<open>Weighted StdDev not implemented\<close>; no
  number, NaN included, is returned.
\<close>

theorem C9_weighted_StdDev_panics:
  assumes "Xs s \<noteq> []" and "Weights s \<noteq> None"
  shows "Sample_StdDev s = Inl (Panic ''Weighted StdDev not implemented'')"
  using assms by (simp add: Sample_StdDev_def)

theorem C9_weighted_StdDev_panics_witness:
  "Sample_StdDev \<lparr>Xs = [Fin 1, Fin 2], Weights = Some [Fin 1, Fin 1], Sorted = False\<rparr>
     = Inl (Panic ''Weighted StdDev not implemented'')"
  using C9_weighted_StdDev_panics
    [of "\<lparr>Xs = [Fin 1, Fin 2], Weights = Some [Fin 1, Fin 1], Sorted = False\<rparr>"]
  by simp

text \<open>
  C10.  A sample with weights present and no values gets NaN from \<^verbatim>\<open>StdDev\<close> through
  the unweighted path, and \<^verbatim>\<open>StdDev\<close> fails exactly on the samples that have a value
  and have weights.
\<close>

theorem C10_StdDev_empty_weighted:
  "(Xs s = [] \<longrightarrow> Sample_StdDev s = Inr NaN) \<and>
   ((\<exists>e. Sample_StdDev s = Inl e) \<longleftrightarrow> (Xs s \<noteq> [] \<and> Weights s \<noteq> None))"
  by (auto simp: Sample_StdDev_def StdDev_def)

theorem C10_StdDev_empty_weighted_witness:
  "Sample_StdDev \<lparr>Xs = [], Weights = Some [], Sorted = True\<rparr> = Inr NaN \<and>
   (\<exists>e. Sample_StdDev \<lparr>Xs = [Fin 3], Weights = Some [Fin 1], Sorted = True\<rparr> = Inl e)"
  using C10_StdDev_empty_weighted [of "\<lparr>Xs = [], Weights = Some [], Sorted = True\<rparr>"]
    C10_StdDev_empty_weighted [of "\<lparr>Xs = [Fin 3], Weights = Some [Fin 1], Sorted = True\<rparr>"]
  by simp

section \<open>Results on the mean\<close>

text \<open>
  C2.  The claim is that the weighted mean guards the division while the cumulative
  weight is zero, so that a leading zero weight does not spoil the mean.  The source
  has no such guard: on the values \<open>[10, 20]\<close> with the weights \<open>[0, 1]\<close> the first
  turn computes \<open>(10 - 0) * 0 / 0\<close>, which is NaN, and the result is NaN although the
  total weight is 1 and the weighted mean is 20.
\<close>

theorem C2_Mean_leading_zero_weight_is_NaN:
  "Sample_Mean \<lparr>Xs = [Fin 10, Fin 20], Weights = Some [Fin 0, Fin 1], Sorted = False\<rparr>
     = Inr NaN"
  by (simp add: Sample_Mean_def fsub_def)

section \<open>Results on the percentile\<close>

text \<open>
  C4.  The claim is that a sample whose weights are all zero gets NaN from
  \<^verbatim>\<open>Percentile\<close> for every \<open>p\<close>, as the comment above \<^verbatim>\<open>Percentile\<close> in the source
  also says.  For \<open>p\<close> strictly between 0 and 1 the source computes the target
  \<open>0 * p = 0\<close>, no subtraction of a zero weight makes it negative, and the scan falls
  through to the last value: on the values \<open>[1, 2]\<close> with the weights \<open>[0, 0]\<close> and
  \<open>p = 1/2\<close> the result is 2, whether the sample is flagged sorted or not.
\<close>

theorem C4_Percentile_zero_weights_returns_last:
  "Percentile \<lparr>Xs = [Fin 1, Fin 2], Weights = Some [Fin 0, Fin 0], Sorted = True\<rparr> (Fin (1 / 2))
     = Inr (Fin 2) \<and>
   Percentile \<lparr>Xs = [Fin 1, Fin 2], Weights = Some [Fin 0, Fin 0], Sorted = False\<rparr> (Fin (1 / 2))
     = Inr (Fin 2)"
  by (simp add: Percentile_def percentile_sorted_def Weight_def Sum_def fle_def fge_def feq_def
      fsub_def index_def Sort_def Copy_def f64_less_def IsNaN_def)

text \<open>
  C6.  On an empty sample \<^verbatim>\<open>Percentile\<close> returns NaN for every \<open>p\<close>.  On a non-empty
  sample it returns the minimum of \<^verbatim>\<open>Bounds\<close> for \<open>p \<le> 0\<close> and the maximum of
  \<^verbatim>\<open>Bounds\<close> for \<open>p \<ge> 1\<close> (and panics where \<^verbatim>\<open>Bounds\<close> panics); in particular
  for \<open>p = 0\<close> and \<open>p = 1\<close>.
\<close>

theorem C6_Percentile_clamps_to_Bounds:
  "(Xs s = [] \<longrightarrow> Percentile s p = Inr NaN) \<and>
   (Xs s \<noteq> [] \<and> fle p (Fin 0) \<longrightarrow>
      Percentile s p = (case Sample_Bounds s of Inl e \<Rightarrow> Inl e | Inr (mn, mx) \<Rightarrow> Inr mn)) \<and>
   (Xs s \<noteq> [] \<and> fge p (Fin 1) \<longrightarrow>
      Percentile s p = (case Sample_Bounds s of Inl e \<Rightarrow> Inl e | Inr (mn, mx) \<Rightarrow> Inr mx)) \<and>
   (Xs s \<noteq> [] \<longrightarrow>
      Percentile s (Fin 0) = (case Sample_Bounds s of Inl e \<Rightarrow> Inl e | Inr (mn, mx) \<Rightarrow> Inr mn) \<and>
      Percentile s (Fin 1) = (case Sample_Bounds s of Inl e \<Rightarrow> Inl e | Inr (mn, mx) \<Rightarrow> Inr mx))"
proof -
  have not_both: "fge p (Fin 1) \<Longrightarrow> \<not> fle p (Fin 0)"
    by (cases p) (auto simp: fge_def fle_def feq_def)
  have zero: "fle (Fin 0) (Fin 0)" and one: "fge (Fin 1) (Fin 1)" "\<not> fle (Fin 1) (Fin 0)"
    by (simp_all add: fge_def fle_def feq_def)
  show ?thesis
    using not_both zero one by (simp add: Percentile_def)
qed

theorem C6_Percentile_clamps_to_Bounds_witness:
  "Percentile \<lparr>Xs = [], Weights = None, Sorted = False\<rparr> (Fin (1 / 2)) = Inr NaN \<and>
   Percentile \<lparr>Xs = [Fin 3, Fin 1, Fin 2], Weights = None, Sorted = False\<rparr> (Fin (- 1)) = Inr (Fin 1) \<and>
   Percentile \<lparr>Xs = [Fin 3, Fin 1, Fin 2], Weights = None, Sorted = False\<rparr> (Fin 2) = Inr (Fin 3) \<and>
   Percentile \<lparr>Xs = [Fin 3, Fin 1, Fin 2], Weights = None, Sorted = False\<rparr> (Fin 0) = Inr (Fin 1) \<and>
   Percentile \<lparr>Xs = [Fin 3, Fin 1, Fin 2], Weights = None, Sorted = False\<rparr> (Fin 1) = Inr (Fin 3)"
  using C6_Percentile_clamps_to_Bounds [of "\<lparr>Xs = [], Weights = None, Sorted = False\<rparr>" "Fin (1 / 2)"]
    C6_Percentile_clamps_to_Bounds
      [of "\<lparr>Xs = [Fin 3, Fin 1, Fin 2], Weights = None, Sorted = False\<rparr>" "Fin (- 1)"]
    C6_Percentile_clamps_to_Bounds
      [of "\<lparr>Xs = [Fin 3, Fin 1, Fin 2], Weights = None, Sorted = False\<rparr>" "Fin 2"]
  by (simp add: Sample_Bounds_def Bounds_def fle_def fge_def feq_def fgt_def)

section \<open>Results on the bounds\<close>

lemma fle_NaN [simp]: "\<not> fle NaN y" "\<not> fle x NaN"
  by (cases x; simp add: fle_def feq_def)+

lemma ascending_NaN: "ascending vs \<Longrightarrow> NaN \<in> set vs \<Longrightarrow> vs = [NaN]"
proof (cases vs)
  case Nil
  then show "NaN \<in> set vs \<Longrightarrow> vs = [NaN]" by simp
next
  case (Cons x ys)
  assume a: "ascending vs" and n: "NaN \<in> set vs"
  show "vs = [NaN]"
  proof (cases ys)
    case Nil
    with Cons n show ?thesis by simp
  next
    case (Cons y zs)
    with a \<open>vs = x # ys\<close> have all: "\<forall>z\<in>set (y # zs). fle x z" and rest: "sorted_wrt fle (y # zs)"
      by (simp_all add: ascending_def)
    from all have "x \<noteq> NaN" by auto
    moreover from all have "NaN \<notin> set (y # zs)" by (metis fle_NaN(2))
    ultimately show ?thesis using n \<open>vs = x # ys\<close> Cons by simp
  qed
qed

lemma min_scan_supported:
  "i + length ws \<le> length vs \<Longrightarrow> min_scan ws vs i = Inr (first_supported (drop i vs) ws)"
proof (induction ws arbitrary: i)
  case Nil
  then show ?case by (simp add: first_supported_def supported_def)
next
  case (Cons w ws)
  then have i: "i < length vs" by simp
  then have d: "drop i vs = vs ! i # drop (Suc i) vs" by (simp add: Cons_nth_drop_Suc)
  show ?case
  proof (cases "nonzero w")
    case True
    then show ?thesis using i d by (simp add: first_supported_def supported_def index_def)
  next
    case False
    have "min_scan ws vs (Suc i) = Inr (first_supported (drop (Suc i) vs) ws)"
      using Cons.IH [of "Suc i"] Cons.prems by simp
    then show ?thesis using False d by (simp add: first_supported_def supported_def)
  qed
qed

lemma max_scan_supported:
  "k \<le> length ws \<Longrightarrow> k \<le> length vs \<Longrightarrow>
   max_scan ws vs k = Inr (last_supported (take k vs) (take k ws))"
proof (induction k)
  case 0
  then show ?case by (simp add: last_supported_def supported_def)
next
  case (Suc j)
  then have tv: "take (Suc j) vs = take j vs @ [vs ! j]" and tw: "take (Suc j) ws = take j ws @ [ws ! j]"
    by (simp_all add: take_Suc_conv_app_nth)
  have len: "length (take j vs) = length (take j ws)" using Suc.prems by simp
  have z: "zip (take (Suc j) vs) (take (Suc j) ws) = zip (take j vs) (take j ws) @ [(vs ! j, ws ! j)]"
    unfolding tv tw using len by simp
  show ?case
  proof (cases "nonzero (ws ! j)")
    case True
    then show ?thesis using Suc.prems by (simp add: last_supported_def supported_def z index_def)
  next
    case False
    then show ?thesis using Suc by (simp add: last_supported_def supported_def z)
  qed
qed

lemma first_supported_mem:
  "supported vs ws \<noteq> [] \<Longrightarrow> first_supported vs ws \<in> set vs"
proof -
  assume "supported vs ws \<noteq> []"
  then obtain x r where e: "supported vs ws = x # r" by (cases "supported vs ws") auto
  then have "x \<in> set (supported vs ws)" by simp
  then have "x \<in> set vs" by (auto simp: supported_def dest: set_zip_leftD)
  then show ?thesis using e by (simp add: first_supported_def)
qed




section \<open>Results on sorting\<close>

lemma flt_irrefl [simp]: "\<not> flt x x"
  by (cases x) simp_all

lemma fle_trans: "fle x y \<Longrightarrow> fle y z \<Longrightarrow> fle x z"
  by (cases x; cases y; cases z) (auto simp: fle_def feq_def)

lemma not_flt_iff: "x \<noteq> NaN \<Longrightarrow> y \<noteq> NaN \<Longrightarrow> \<not> flt x y \<longleftrightarrow> fle y x"
  by (cases x; cases y) (auto simp: fle_def feq_def)

lemma flt_imp_fle: "flt x y \<Longrightarrow> fle x y"
  by (simp add: fle_def)

lemma fle_refl: "x \<noteq> NaN \<Longrightarrow> fle x x"
  by (simp add: fle_def feq_def)

lemma f64_less_flt: "x \<noteq> NaN \<Longrightarrow> f64_less x y = flt x y"
  by (simp add: f64_less_def IsNaN_def)

lemma Float64sAreSorted_ascending:
  "NaN \<notin> set vs \<Longrightarrow> Float64sAreSorted vs = ascending vs"
proof (induction vs rule: Float64sAreSorted.induct)
  case (3 x y ys)
  then have nn: "x \<noteq> NaN" "y \<noteq> NaN" and ih: "Float64sAreSorted (y # ys) = ascending (y # ys)"
    by auto
  have all: "(\<forall>z\<in>set (y # ys). fle x z) = fle x y" if "sorted_wrt fle (y # ys)"
    using that fle_trans by auto
  have "Float64sAreSorted (x # y # ys) = (fle x y \<and> ascending (y # ys))"
    using nn ih by (simp add: f64_less_flt not_flt_iff)
  also have "\<dots> = ascending (x # y # ys)"
    using all by (auto simp: ascending_def)
  finally show ?case .
qed (simp_all add: ascending_def)

lemma set_f64_insert: "set (f64_insert x ys) = insert x (set ys)"
  by (induction ys) auto

lemma mset_f64_insert: "mset (f64_insert x ys) = add_mset x (mset ys)"
  by (induction ys) auto

lemma ascending_f64_insert:
  "x \<noteq> NaN \<Longrightarrow> NaN \<notin> set ys \<Longrightarrow> ascending ys \<Longrightarrow> ascending (f64_insert x ys)"
proof (induction ys)
  case Nil
  then show ?case by (simp add: ascending_def)
next
  case (Cons y ys)
  show ?case
  proof (cases "flt x y")
    case True
    then have "fle x y" by (rule flt_imp_fle)
    then have "\<forall>z\<in>set ys. fle x z" using Cons.prems(3) fle_trans by (auto simp: ascending_def)
    then show ?thesis using True \<open>fle x y\<close> Cons.prems by (simp add: ascending_def f64_less_flt)
  next
    case False
    then have "fle y x" using Cons.prems not_flt_iff by auto
    then show ?thesis using False Cons by (auto simp: ascending_def f64_less_flt set_f64_insert)
  qed
qed

lemma mset_Float64s: "mset (Float64s vs) = mset vs"
  by (induction vs) (simp_all add: Float64s_def mset_f64_insert)

lemma set_Float64s: "set (Float64s vs) = set vs"
  by (induction vs) (simp_all add: Float64s_def set_f64_insert)

lemma ascending_Float64s: "NaN \<notin> set vs \<Longrightarrow> ascending (Float64s vs)"
proof (induction vs)
  case Nil
  then show ?case by (simp add: Float64s_def ascending_def)
next
  case (Cons x vs)
  then have "ascending (f64_insert x (Float64s vs))"
    by (intro ascending_f64_insert) (auto simp: set_Float64s)
  then show ?case by (simp add: Float64s_def)
qed

lemma length_pairs: "balanced p \<Longrightarrow> length (pairs p) = length (sorter_xs p)"
  by (simp add: pairs_def balanced_def)

lemma Less_pairs:
  "balanced p \<Longrightarrow> i < length (pairs p) \<Longrightarrow> j < length (pairs p) \<Longrightarrow>
   Less p i j = flt (fst (pairs p ! i)) (fst (pairs p ! j))"
  by (simp add: Less_def pairs_def balanced_def)

lemma Swap_pairs:
  assumes "balanced p" and "i < length (pairs p)" and "j < length (pairs p)"
  shows "\<exists>p'. Swap p i j = Inr p' \<and> balanced p' \<and>
           pairs p' = (pairs p)[i := pairs p ! j, j := pairs p ! i]"
  using assms by (simp add: Swap_def pairs_def balanced_def zip_update)

lemma swap_adjacent:
  "length a = j \<Longrightarrow> (a @ y # x # c)[Suc j := (a @ y # x # c) ! j, j := (a @ y # x # c) ! Suc j]
     = a @ x # y # c"
  by (simp add: list_update_append nth_append)

lemma insert_loop_pairs:
  assumes "balanced p" and "pairs p = a @ x # c" and "length a = j"
  shows "\<exists>p'. insert_loop p j = Inr p' \<and> balanced p' \<and> pairs p' = insert_up x a @ c"
  using assms
proof (induction j arbitrary: p a c)
  case 0
  then show ?case by (simp add: insert_up_def)
next
  case (Suc j)
  then obtain a' y where a: "a = a' @ [y]" and la: "length a' = j"
    by (metis length_Suc_conv_rev)
  have ps: "pairs p = a' @ y # x # c" using Suc.prems(2) a by simp
  then have len: "Suc j < length (pairs p)" "j < length (pairs p)" using la by simp_all
  have nth: "pairs p ! Suc j = x" "pairs p ! j = y" using ps la by (simp_all add: nth_append)
  have less: "Less p (Suc j) j = flt (fst x) (fst y)"
    using Less_pairs [OF Suc.prems(1) len] nth by simp
  show ?case
  proof (cases "flt (fst x) (fst y)")
    case True
    obtain p1 where sw: "Swap p (Suc j) j = Inr p1" and b1: "balanced p1"
      and p1: "pairs p1 = (pairs p)[Suc j := pairs p ! j, j := pairs p ! Suc j]"
      using Swap_pairs [OF Suc.prems(1) len] by blast
    have "pairs p1 = a' @ x # (y # c)" using p1 swap_adjacent [OF la, of y x c] ps by simp
    then obtain p2 where "insert_loop p1 j = Inr p2" "balanced p2"
      "pairs p2 = insert_up x a' @ y # c"
      using Suc.IH [OF b1 _ la, of "y # c"] by blast
    then show ?thesis using True less sw a by (simp add: insert_up_def)
  next
    case False
    then show ?thesis using less Suc.prems a by (simp add: insert_up_def)
  qed
qed

lemma insertionSort_pairs:
  assumes "balanced p" and "pairs p = a @ c" and "length a = i" and "length c = k"
  shows "\<exists>p'. insertionSort p i k = Inr p' \<and> balanced p' \<and> pairs p' = isort_pairs a c"
  using assms
proof (induction k arbitrary: p a c i)
  case 0
  then show ?case by simp
next
  case (Suc k)
  then obtain x c' where c: "c = x # c'" and lc: "length c' = k"
    by (metis length_Suc_conv)
  obtain p1 where il: "insert_loop p i = Inr p1" and b1: "balanced p1"
    and p1: "pairs p1 = insert_up x a @ c'"
    using insert_loop_pairs [OF Suc.prems(1) _ Suc.prems(3), of x c'] Suc.prems(2) c by auto
  have "mset (insert_down x ys) = add_mset x (mset ys)" for ys
    by (induction ys) auto
  then have "size (mset (insert_up x a)) = Suc (size (mset a))"
    by (simp add: insert_up_def)
  then have "length (insert_up x a) = Suc i" using Suc.prems(3) by simp
  then obtain p2 where "insertionSort p1 (Suc i) k = Inr p2" "balanced p2"
    "pairs p2 = isort_pairs (insert_up x a) c'"
    using Suc.IH [OF b1 p1 _ lc] by blast
  then show ?case using il c by simp
qed

lemma mset_insert_down: "mset (insert_down x ys) = add_mset x (mset ys)"
  by (induction ys) auto

lemma mset_insert_up: "mset (insert_up x a) = add_mset x (mset a)"
  by (simp add: insert_up_def mset_insert_down)

lemma mset_isort_pairs: "mset (isort_pairs a c) = mset a + mset c"
  by (induction c arbitrary: a) (simp_all add: mset_insert_up)

lemma set_insert_down: "set (insert_down x ys) = insert x (set ys)"
  by (induction ys) auto

lemma ascending_snoc:
  "ascending (vs @ [v]) \<longleftrightarrow> ascending vs \<and> (\<forall>u\<in>set vs. fle u v)"
  by (auto simp: ascending_def sorted_wrt_append)

lemma ascending_insert_down:
  assumes "ascending (map fst (rev ys))" and "fst x \<noteq> NaN" and "NaN \<notin> fst ` set ys"
  shows "ascending (map fst (rev (insert_down x ys)))"
  using assms
proof (induction ys)
  case Nil
  then show ?case by (simp add: ascending_def)
next
  case (Cons y ys)
  from Cons.prems(1) have asc: "ascending (map fst (rev ys))"
    and below: "\<forall>u\<in>set ys. fle (fst u) (fst y)"
    by (auto simp: ascending_snoc)
  show ?case
  proof (cases "flt (fst x) (fst y)")
    case True
    then have "fle (fst x) (fst y)" by (rule flt_imp_fle)
    moreover have "ascending (map fst (rev (insert_down x ys)))"
      using Cons.IH asc Cons.prems by simp
    ultimately show ?thesis using True below
      by (auto simp: ascending_snoc set_insert_down)
  next
    case False
    then have yx: "fle (fst y) (fst x)" using Cons.prems not_flt_iff by auto
    then have all: "\<forall>u\<in>set (y # ys). fle (fst u) (fst x)" using below fle_trans by auto
    have "map fst (rev (insert_down x (y # ys))) = map fst (rev (y # ys)) @ [fst x]"
      using False by simp
    then show ?thesis using all Cons.prems(1)
      by (simp only: ascending_snoc) auto
  qed
qed

lemma ascending_insert_up:
  "ascending (map fst a) \<Longrightarrow> fst x \<noteq> NaN \<Longrightarrow> NaN \<notin> fst ` set a \<Longrightarrow>
   ascending (map fst (insert_up x a))"
  using ascending_insert_down [of "rev a" x] by (simp add: insert_up_def)

lemma set_insert_up: "set (insert_up x a) = insert x (set a)"
  by (simp add: insert_up_def set_insert_down)

lemma ascending_isort_pairs:
  "ascending (map fst a) \<Longrightarrow> NaN \<notin> fst ` set a \<Longrightarrow> NaN \<notin> fst ` set c \<Longrightarrow>
   ascending (map fst (isort_pairs a c))"
proof (induction c arbitrary: a)
  case Nil
  then show ?case by simp
next
  case (Cons x c)
  have "ascending (map fst (insert_up x a))"
    using Cons.prems by (intro ascending_insert_up) auto
  moreover have "NaN \<notin> fst ` set (insert_up x a)"
    using Cons.prems by (auto simp: set_insert_up)
  ultimately show ?case using Cons.IH Cons.prems(3) by simp
qed

lemma sort_Sort_pairs:
  assumes "length vs = length ws" and "NaN \<notin> set vs"
  shows "\<exists>p'. sort_Sort \<lparr>sorter_xs = vs, sorter_weights = ws\<rparr> = Inr p' \<and>
           length (sorter_xs p') = length (sorter_weights p') \<and>
           ascending (sorter_xs p') \<and>
           mset (zip (sorter_xs p') (sorter_weights p')) = mset (zip vs ws)"
proof (cases vs)
  case Nil
  then show ?thesis using assms by (simp add: sort_Sort_def Len_def ascending_def)
next
  case (Cons v vs')
  then obtain w ws' where ws: "ws = w # ws'" and l: "length vs' = length ws'"
    using assms(1) by (cases ws) auto
  let ?p = "\<lparr>sorter_xs = vs, sorter_weights = ws\<rparr>"
  have b: "balanced ?p" using assms(1) by (simp add: balanced_def)
  have ps: "pairs ?p = [(v, w)] @ zip vs' ws'" using Cons ws by (simp add: pairs_def)
  obtain p' where s: "insertionSort ?p 1 (length vs') = Inr p'" and b': "balanced p'"
    and p': "pairs p' = isort_pairs [(v, w)] (zip vs' ws')"
    using insertionSort_pairs [OF b ps, of 1 "length vs'"] l by auto
  have xs': "map fst (pairs p') = sorter_xs p'"
    using b' by (simp add: pairs_def balanced_def)
  have "NaN \<notin> fst ` set (zip vs' ws')" using assms(2) Cons by (auto dest: set_zip_leftD)
  then have "ascending (map fst (pairs p'))"
    unfolding p' using assms(2) Cons by (intro ascending_isort_pairs) (auto simp: ascending_def)
  then have asc: "ascending (sorter_xs p')" by (simp only: xs')
  have ms: "mset (zip (sorter_xs p') (sorter_weights p')) = mset (zip vs ws)"
    using p' Cons ws by (simp add: mset_isort_pairs pairs_def)
  have run: "sort_Sort ?p = Inr p'"
    using s Cons by (simp add: sort_Sort_def Len_def)
  have len: "length (sorter_xs p') = length (sorter_weights p')"
    using b' by (simp add: balanced_def)
  show ?thesis using run len asc ms by blast
qed

lemma sort_Sort_isort:
  assumes "length vs = length ws"
  shows "\<exists>p'. sort_Sort \<lparr>sorter_xs = vs, sorter_weights = ws\<rparr> = Inr p' \<and> balanced p' \<and>
           pairs p' = isort_pairs [] (zip vs ws)"
proof (cases vs)
  case Nil
  then show ?thesis using assms
    by (simp add: sort_Sort_def Len_def balanced_def pairs_def)
next
  case (Cons v vs')
  then obtain w ws' where ws: "ws = w # ws'" and l: "length vs' = length ws'"
    using assms by (cases ws) auto
  let ?p = "\<lparr>sorter_xs = vs, sorter_weights = ws\<rparr>"
  have b: "balanced ?p" using assms by (simp add: balanced_def)
  have ps: "pairs ?p = [(v, w)] @ zip vs' ws'" using Cons ws by (simp add: pairs_def)
  obtain p' where s: "insertionSort ?p 1 (length vs') = Inr p'" and b': "balanced p'"
    and p': "pairs p' = isort_pairs [(v, w)] (zip vs' ws')"
    using insertionSort_pairs [OF b ps, of 1 "length vs'"] l by auto
  have "sort_Sort ?p = Inr p'" using s Cons by (simp add: sort_Sort_def Len_def)
  moreover have "pairs p' = isort_pairs [] (zip vs ws)"
    using p' Cons ws by (simp add: insert_up_def)
  ultimately show ?thesis using b' by blast
qed

text \<open>
  What \<^verbatim>\<open>Sort\<close> does on every sample with as many weights as values, NaN or not: it
  returns, the flag is set, the values are a permutation of the old ones, nil weights
  stay nil, present weights stay paired with their values, a sample that was flagged
  or that \<^verbatim>\<open>sort.Float64sAreSorted\<close> accepts only has its flag set, and sorting once
  more changes nothing.
\<close>

lemma Sort_keeps_pairs:
  assumes "\<forall>ws. Weights s = Some ws \<longrightarrow> length ws = length (Xs s)"
  shows "\<exists>s'. Sort s = Inr s' \<and> Sorted s' \<and> mset (Xs s') = mset (Xs s) \<and>
           (Weights s = None \<longrightarrow> Weights s' = None) \<and>
           (\<forall>ws. Weights s = Some ws \<longrightarrow>
              (\<exists>ws'. Weights s' = Some ws' \<and> length ws' = length (Xs s') \<and>
                     mset (zip (Xs s') ws') = mset (zip (Xs s) ws))) \<and>
           (Sorted s \<or> Float64sAreSorted (Xs s) \<longrightarrow> s' = s\<lparr>Sorted := True\<rparr>) \<and>
           Sort s' = Inr s'"
proof -
  have again: "Sort s' = Inr s'" if "Sorted s'" for s'
    using that by (simp add: Sort_def)
  show ?thesis
  proof (cases "Sorted s \<or> Float64sAreSorted (Xs s)")
    case True
    then have "Sort s = Inr (s\<lparr>Sorted := True\<rparr>)" by (auto simp: Sort_def)
    then show ?thesis using assms again [of "s\<lparr>Sorted := True\<rparr>"] by simp
  next
    case False
    show ?thesis
    proof (cases "Weights s")
      case None
      let ?s' = "s\<lparr>Xs := Float64s (Xs s), Sorted := True\<rparr>"
      have "Sort s = Inr ?s'" using False None by (simp add: Sort_def)
      moreover have "mset (Xs ?s') = mset (Xs s)" by (simp add: mset_Float64s)
      ultimately show ?thesis using None False again [of ?s'] by simp
    next
      case (Some ws)
      then have len: "length (Xs s) = length ws" using assms by simp
      obtain p' where run: "sort_Sort \<lparr>sorter_xs = Xs s, sorter_weights = ws\<rparr> = Inr p'"
        and b: "balanced p'" and p': "pairs p' = isort_pairs [] (zip (Xs s) ws)"
        using sort_Sort_isort [OF len] by blast
      have l': "length (sorter_xs p') = length (sorter_weights p')"
        using b by (simp add: balanced_def)
      have ms: "mset (zip (sorter_xs p') (sorter_weights p')) = mset (zip (Xs s) ws)"
        using p' by (simp add: pairs_def mset_isort_pairs)
      let ?s' = "\<lparr>Xs = sorter_xs p', Weights = Some (sorter_weights p'), Sorted = True\<rparr>"
      have srt: "Sort s = Inr ?s'" using False Some run by (simp add: Sort_def)
      have "mset (map fst (zip (sorter_xs p') (sorter_weights p'))) = mset (map fst (zip (Xs s) ws))"
        using ms by (metis mset_map)
      then have msx: "mset (sorter_xs p') = mset (Xs s)" using l' len by simp
      show ?thesis using srt msx ms l' Some False again [of ?s'] by simp
    qed
  qed
qed

text \<open>Without a NaN among the values, the values are ascending afterwards.\<close>

lemma Sort_sorts_without_NaN:
  assumes "NaN \<notin> set (Xs s)"
    and "\<forall>ws. Weights s = Some ws \<longrightarrow> length ws = length (Xs s)"
    and "Sorted s \<longrightarrow> ascending (Xs s)"
  shows "\<exists>s'. Sort s = Inr s' \<and> ascending (Xs s') \<and> Sorted s' \<and>
           mset (Xs s') = mset (Xs s) \<and>
           (Weights s = None \<longrightarrow> Weights s' = None) \<and>
           (\<forall>ws. Weights s = Some ws \<longrightarrow>
              (\<exists>ws'. Weights s' = Some ws' \<and> length ws' = length (Xs s') \<and>
                     mset (zip (Xs s') ws') = mset (zip (Xs s) ws))) \<and>
           (Sorted s \<or> ascending (Xs s) \<longrightarrow> s' = s\<lparr>Sorted := True\<rparr>) \<and>
           Sort s' = Inr s'"
proof -
  have already: "Float64sAreSorted (Xs s) = ascending (Xs s)"
    using assms(1) by (rule Float64sAreSorted_ascending)
  have again: "Sort s' = Inr s'" if "Sorted s'" for s'
    using that by (simp add: Sort_def)
  show ?thesis
  proof (cases "Sorted s \<or> ascending (Xs s)")
    case True
    then have "Sort s = Inr (s\<lparr>Sorted := True\<rparr>)" using already by (auto simp: Sort_def)
    moreover have "ascending (Xs s)" using True assms(3) by blast
    ultimately show ?thesis using assms(2) again [of "s\<lparr>Sorted := True\<rparr>"] by simp
  next
    case False
    show ?thesis
    proof (cases "Weights s")
      case None
      let ?s' = "s\<lparr>Xs := Float64s (Xs s), Sorted := True\<rparr>"
      have "Sort s = Inr ?s'" using False None already by (simp add: Sort_def)
      moreover have "ascending (Xs ?s')" using assms(1) by (simp add: ascending_Float64s)
      moreover have "mset (Xs ?s') = mset (Xs s)" by (simp add: mset_Float64s)
      ultimately show ?thesis using None False again [of ?s'] by simp
    next
      case (Some ws)
      then have len: "length (Xs s) = length ws" using assms(2) by simp
      obtain p' where run: "sort_Sort \<lparr>sorter_xs = Xs s, sorter_weights = ws\<rparr> = Inr p'"
        and l': "length (sorter_xs p') = length (sorter_weights p')"
        and asc: "ascending (sorter_xs p')"
        and ms: "mset (zip (sorter_xs p') (sorter_weights p')) = mset (zip (Xs s) ws)"
        using sort_Sort_pairs [OF len assms(1)] by blast
      let ?s' = "\<lparr>Xs = sorter_xs p', Weights = Some (sorter_weights p'), Sorted = True\<rparr>"
      have srt: "Sort s = Inr ?s'" using False Some already run by (simp add: Sort_def)
      have "mset (map fst (zip (sorter_xs p') (sorter_weights p'))) = mset (map fst (zip (Xs s) ws))"
        using ms by (metis mset_map)
      then have msx: "mset (sorter_xs p') = mset (Xs s)" using l' len by simp
      show ?thesis using srt asc msx ms l' Some False again [of ?s'] by simp
    qed
  qed
qed


text \<open>
  C5.  The claim is that \<^verbatim>\<open>Sort\<close> leaves the values ascending.  On the weighted sample
  with the values \<open>[2, NaN, 1]\<close> no comparison of \<^verbatim>\<open>sampleSorter.Less\<close> with the NaN
  holds, so \<^verbatim>\<open>Sort\<close> swaps nothing and flags the sample sorted although 1 stands
  after 2: the values are not ascending and \<^verbatim>\<open>sort.Float64sAreSorted\<close>, the test
  \<^verbatim>\<open>Sort\<close> itself uses, rejects them.  Without weights the same values are sorted to
  \<open>[NaN, 1, 2]\<close> by \<^verbatim>\<open>sort.Float64s\<close>.  On the store the receiver's arrays are left
  as they were and the receiver comes back with its flag set.
\<close>

theorem C5_Sort_weighted_NaN_flagged_unsorted:
  "Sort \<lparr>Xs = [Fin 2, NaN, Fin 1], Weights = Some [Fin 1, Fin 1, Fin 1], Sorted = False\<rparr>
     = Inr \<lparr>Xs = [Fin 2, NaN, Fin 1], Weights = Some [Fin 1, Fin 1, Fin 1], Sorted = True\<rparr> \<and>
   \<not> ascending [Fin 2, NaN, Fin 1] \<and> \<not> Float64sAreSorted [Fin 2, NaN, Fin 1] \<and>
   Sort \<lparr>Xs = [Fin 2, NaN, Fin 1], Weights = None, Sorted = False\<rparr>
     = Inr \<lparr>Xs = [NaN, Fin 1, Fin 2], Weights = None, Sorted = True\<rparr> \<and>
   Sort_st [[Fin 2, NaN, Fin 1], [Fin 1, Fin 1, Fin 1]]
       \<lparr>XsRef = Some 0, WeightsRef = Some 1, SortedFlag = False\<rparr>
     = Inr ([[Fin 2, NaN, Fin 1], [Fin 1, Fin 1, Fin 1]],
            \<lparr>XsRef = Some 0, WeightsRef = Some 1, SortedFlag = True\<rparr>)"
proof -
  have w: "Sort \<lparr>Xs = [Fin 2, NaN, Fin 1], Weights = Some [Fin 1, Fin 1, Fin 1], Sorted = False\<rparr>
     = Inr \<lparr>Xs = [Fin 2, NaN, Fin 1], Weights = Some [Fin 1, Fin 1, Fin 1], Sorted = True\<rparr>"
    by (simp add: Sort_def sort_Sort_def Len_def Less_def f64_less_def IsNaN_def numeral_2_eq_2)
  have n: "\<not> ascending [Fin 2, NaN, Fin 1]" "\<not> Float64sAreSorted [Fin 2, NaN, Fin 1]"
    by (simp_all add: ascending_def f64_less_def IsNaN_def)
  have u: "Sort \<lparr>Xs = [Fin 2, NaN, Fin 1], Weights = None, Sorted = False\<rparr>
     = Inr \<lparr>Xs = [NaN, Fin 1, Fin 2], Weights = None, Sorted = True\<rparr>"
    by (simp add: Sort_def Float64s_def f64_less_def IsNaN_def)
  have s: "Sort_st [[Fin 2, NaN, Fin 1], [Fin 1, Fin 1, Fin 1]]
       \<lparr>XsRef = Some 0, WeightsRef = Some 1, SortedFlag = False\<rparr>
     = Inr ([[Fin 2, NaN, Fin 1], [Fin 1, Fin 1, Fin 1]],
            \<lparr>XsRef = Some 0, WeightsRef = Some 1, SortedFlag = True\<rparr>)"
    using w by (simp add: Sort_st_def load_def)
  show ?thesis using w n u s by blast
qed

section \<open>Results on the store\<close>

lemma Copy_id: "Copy s = s"
  by (cases s) (simp add: Copy_def split: option.splits)

lemma Copy_st_props:
  assumes "Copy_st st r = (st1, c)"
  shows "take (length st) st1 = st"
    and "load st1 c = load st r"
    and "valid st1 c" and "XsRef c = Some (length st)"
    and "WeightsRef c \<noteq> XsRef c" and "length st \<le> length st1"
    and "\<forall>a. WeightsRef c = Some a \<longrightarrow> length st \<le> a"
  using assms
  by (auto simp: Copy_st_def Copy_id Let_def load_def valid_def nth_append split: option.splits)


lemma Sort_Weights_None: "Sort s = Inr s' \<Longrightarrow> (Weights s' = None) = (Weights s = None)"
  by (auto simp: Sort_def split: if_splits option.splits sum.splits)

lemma load_extend: "valid st r \<Longrightarrow> load (st @ ext) r = load st r"
  by (auto simp: load_def valid_def nth_append split: option.splits)

lemma valid_extend: "valid st r \<Longrightarrow> valid (st @ ext) r"
  by (auto simp: valid_def split: option.splits)

text \<open>
  \<^verbatim>\<open>Sort\<close> works in place and returns its receiver: the result is the receiver with
  the flag set, no array is allocated, only the receiver's two arrays are written, and
  (the two slices being different arrays) they then hold what \<^verbatim>\<open>Sort\<close> on values
  returns.
\<close>

lemma Sort_st_in_place:
  assumes "Sort_st st r = Inr (st', r')"
  shows "r' = r\<lparr>SortedFlag := True\<rparr>" and "length st' = length st"
    and "\<forall>a. Some a \<noteq> XsRef r \<and> Some a \<noteq> WeightsRef r \<longrightarrow> st' ! a = st ! a"
proof -
  have w: "length (put_array t x v) = length t" for t x v by (cases x) simp_all
  have k: "Some a \<noteq> x \<Longrightarrow> put_array t x v ! a = t ! a" for t x v a by (cases x) auto
  show "r' = r\<lparr>SortedFlag := True\<rparr>" using assms
    by (auto simp: Sort_st_def split: if_splits sum.splits)
  show "length st' = length st" using assms w
    by (auto simp: Sort_st_def split: if_splits sum.splits)
  show "\<forall>a. Some a \<noteq> XsRef r \<and> Some a \<noteq> WeightsRef r \<longrightarrow> st' ! a = st ! a" using assms k
    by (auto simp: Sort_st_def split: if_splits sum.splits)
qed

lemma Sort_st_value:
  assumes "valid st r" and "XsRef r \<noteq> WeightsRef r \<or> XsRef r = None"
    and "\<forall>ws. Weights (load st r) = Some ws \<longrightarrow> length ws = length (Xs (load st r))"
  shows "\<exists>st' s'. Sort_st st r = Inr (st', r\<lparr>SortedFlag := True\<rparr>) \<and> Sort (load st r) = Inr s' \<and>
            load st' (r\<lparr>SortedFlag := True\<rparr>) = s'"
proof -
  obtain s' where s': "Sort (load st r) = Inr s'" and srt: "Sorted s'"
    using Sort_keeps_pairs [OF assms(3)] by blast
  have wn: "(Weights s' = None) = (WeightsRef r = None)"
    using Sort_Weights_None [OF s'] by (simp add: load_def split: option.splits)
  have emp: "Xs s' = []" if "XsRef r = None"
    using that s' by (auto simp: Sort_def load_def split: if_splits option.splits sum.splits)
  let ?st' = "put_array (put_array st (XsRef r) (Xs s')) (WeightsRef r) (the (Weights s'))"
  have run: "Sort_st st r = Inr (?st', r\<lparr>SortedFlag := True\<rparr>)"
    using s' assms(2) by (auto simp: Sort_st_def)
  have "load ?st' (r\<lparr>SortedFlag := True\<rparr>) = s'"
  proof (cases "XsRef r")
    case None
    show ?thesis
    proof (cases "WeightsRef r")
      case N: None
      then show ?thesis using None wn srt emp by (cases s') (simp add: load_def)
    next
      case (Some wa)
      then obtain ws' where "Weights s' = Some ws'" using wn by (cases "Weights s'") auto
      then show ?thesis using None Some srt emp assms(1) by (cases s') (simp add: load_def valid_def)
    qed
  next
    case (Some xa)
    show ?thesis
    proof (cases "WeightsRef r")
      case None
      then show ?thesis using Some wn srt assms(1) by (cases s') (simp add: load_def valid_def)
    next
      case W: (Some wa)
      then obtain ws' where "Weights s' = Some ws'" using wn by (cases "Weights s'") auto
      moreover have "wa \<noteq> xa" using assms(2) Some W by auto
      ultimately show ?thesis using Some W srt assms(1) by (cases s') (simp add: load_def valid_def)
    qed
  qed
  then show ?thesis using run s' by blast
qed

lemma Sort_st_fresh:
  assumes "XsRef c = Some xa" and "xa < length st1" and "length st \<le> xa"
    and "WeightsRef c \<noteq> XsRef c"
    and "case WeightsRef c of None \<Rightarrow> True | Some wa \<Rightarrow> wa < length st1 \<and> length st \<le> wa"
  shows "case Sort_st st1 c of
           Inl e \<Rightarrow> Sort (load st1 c) = Inl e
         | Inr (st2, c2) \<Rightarrow>
             Sort (load st1 c) = Inr (load st2 c2) \<and> take (length st) st2 = take (length st) st1 \<and>
             length st2 = length st1 \<and> valid st2 c2 \<and> SortedFlag c2"
proof (cases "Sort (load st1 c)")
  case (Inl e)
  then show ?thesis using assms(1,4) by (simp add: Sort_st_def)
next
  case (Inr s')
  have w: "(Weights s' = None) = (WeightsRef c = None)"
    using Sort_Weights_None [OF Inr] by (simp add: load_def split: option.splits)
  have srt: "Sorted s'" using Inr by (auto simp: Sort_def split: if_splits option.splits sum.splits)
  show ?thesis
  proof (cases "WeightsRef c")
    case None
    then show ?thesis using Inr assms(1,2,3) w srt
      by (cases s') (simp add: Sort_st_def load_def valid_def)
  next
    case (Some wa)
    then obtain ws' where ws': "Weights s' = Some ws'" using w by (cases "Weights s'") auto
    have ne: "wa \<noteq> xa" and wl: "wa < length st1" "length st \<le> wa"
      using Some assms(1,4,5) by auto
    show ?thesis using Inr assms(1,2,3) Some ws' ne wl srt
      by (cases s') (simp add: Sort_st_def load_def valid_def)
  qed
qed

lemma sorted_copy_st_sound:
  "case sorted_copy_st st r of
     Inl e \<Rightarrow> Sort (Copy (load st r)) = Inl e
   | Inr (st', r') \<Rightarrow>
       Sort (Copy (load st r)) = Inr (load st' r') \<and> (\<exists>ext. st' = st @ ext) \<and>
       valid st' r' \<and> SortedFlag r'"
proof -
  obtain st1 c where cp: "Copy_st st r = (st1, c)" by (cases "Copy_st st r")
  note props = Copy_st_props [OF cp]
  have xa: "length st < length st1" using cp
    by (auto simp: Copy_st_def Let_def split: option.splits)
  have wa: "case WeightsRef c of None \<Rightarrow> True | Some wa \<Rightarrow> wa < length st1 \<and> length st \<le> wa"
    using props(3,7) by (auto simp: valid_def split: option.splits)
  have ld: "load st1 c = Copy (load st r)" using props(2) by (simp add: Copy_id)
  have fresh: "case Sort_st st1 c of
           Inl e \<Rightarrow> Sort (load st1 c) = Inl e
         | Inr (st2, c2) \<Rightarrow>
             Sort (load st1 c) = Inr (load st2 c2) \<and> take (length st) st2 = take (length st) st1 \<and>
             length st2 = length st1 \<and> valid st2 c2 \<and> SortedFlag c2"
    using Sort_st_fresh [OF props(4) xa _ props(5) wa] by simp
  show ?thesis
  proof (cases "Sort_st st1 c")
    case (Inl e)
    then show ?thesis using fresh cp ld by (simp add: sorted_copy_st_def)
  next
    case (Inr res)
    obtain st2 c2 where res: "res = (st2, c2)" by (cases res)
    from fresh Inr res have f: "Sort (load st1 c) = Inr (load st2 c2)"
      "take (length st) st2 = take (length st) st1" "length st2 = length st1"
      "valid st2 c2" "SortedFlag c2" by simp_all
    have "take (length st) st2 = st" using f(2) props(1) by simp
    then have "st2 = st @ drop (length st) st2" by (metis append_take_drop_id)
    then have "\<exists>ext. st2 = st @ ext" ..
    then show ?thesis using Inr res f cp ld by (simp add: sorted_copy_st_def)
  qed
qed

lemma Percentile_st_sound:
  "case Percentile_st st r p of
     Inl e \<Rightarrow> Percentile (load st r) p = Inl e
   | Inr (st', v) \<Rightarrow> Percentile (load st r) p = Inr v \<and> (\<exists>ext. st' = st @ ext)"
proof -
  have S: "Sorted (load st r) = SortedFlag r" by (simp add: load_def)
  consider (a) "length (Xs (load st r)) = 0 \<or> fle p (Fin 0) \<or> fge p (Fin 1)"
    | (b) "\<not> (length (Xs (load st r)) = 0 \<or> fle p (Fin 0) \<or> fge p (Fin 1))" "SortedFlag r"
    | (c) "\<not> (length (Xs (load st r)) = 0 \<or> fle p (Fin 0) \<or> fge p (Fin 1))" "\<not> SortedFlag r"
    by blast
  then show ?thesis
  proof cases
    case a
    then show ?thesis
      by (auto simp: Percentile_st_def Percentile_def split: sum.splits prod.splits)
  next
    case b
    then show ?thesis using S
      by (auto simp: Percentile_st_def Percentile_def split: sum.splits prod.splits)
  next
    case c
    show ?thesis using c S sorted_copy_st_sound [of st r]
      by (auto simp: Percentile_st_def Percentile_def split: sum.splits prod.splits)
  qed
qed

lemma Percentile_st_Inl:
  "Percentile_st st r p = Inl e \<Longrightarrow> Percentile (load st r) p = Inl e"
  using Percentile_st_sound [of st r p] by simp

lemma Percentile_st_Inr:
  "Percentile_st st r p = Inr (st', v) \<Longrightarrow>
   Percentile (load st r) p = Inr v \<and> (\<exists>ext. st' = st @ ext)"
  using Percentile_st_sound [of st r p] by simp

lemma ensure_sorted_st_Inl: "ensure_sorted_st st r = Inl e \<Longrightarrow> ensure_sorted (load st r) = Inl e"
  using sorted_copy_st_sound [of st r]
  by (auto simp: ensure_sorted_st_def ensure_sorted_def load_def split: if_splits)

lemma ensure_sorted_st_Inr:
  assumes "valid st r" and "ensure_sorted_st st r = Inr (st1, r1)"
  shows "ensure_sorted (load st r) = Inr (load st1 r1) \<and> (\<exists>ext. st1 = st @ ext) \<and> valid st1 r1"
proof (cases "SortedFlag r")
  case True
  then show ?thesis using assms by (auto simp: ensure_sorted_st_def ensure_sorted_def load_def)
next
  case False
  then have "sorted_copy_st st r = Inr (st1, r1)" using assms(2) by (simp add: ensure_sorted_st_def)
  then show ?thesis using sorted_copy_st_sound [of st r] False
    by (simp add: ensure_sorted_def load_def)
qed

lemma IQR_ensure_sorted:
  "IQR s = (case ensure_sorted s of
              Inl e \<Rightarrow> Inl e
            | Inr s' \<Rightarrow>
                (case Percentile s' (Fin (3 / 4)) of
                   Inl e \<Rightarrow> Inl e
                 | Inr hi \<Rightarrow>
                     (case Percentile s' (Fin (1 / 4)) of
                        Inl e \<Rightarrow> Inl e
                      | Inr lo \<Rightarrow> Inr (fsub hi lo))))"
  unfolding IQR_def ensure_sorted_def ..

lemma IQR_st_ensure_sorted:
  "IQR_st st r = (case ensure_sorted_st st r of
        Inl e \<Rightarrow> Inl e
      | Inr (st1, r1) \<Rightarrow>
          (case Percentile_st st1 r1 (Fin (3 / 4)) of
             Inl e \<Rightarrow> Inl e
           | Inr (st2, hi) \<Rightarrow>
               (case Percentile_st st2 r1 (Fin (1 / 4)) of
                  Inl e \<Rightarrow> Inl e
                | Inr (st3, lo) \<Rightarrow> Inr (st3, fsub hi lo))))"
  unfolding IQR_st_def ensure_sorted_st_def ..

lemma IQR_st_Inr:
  assumes "valid st r" and "IQR_st st r = Inr (st', v)"
  shows "IQR (load st r) = Inr v \<and> (\<exists>ext. st' = st @ ext)"
proof -
  from assms(2) obtain st1 r1 st2 hi lo where
    a: "ensure_sorted_st st r = Inr (st1, r1)"
    and b: "Percentile_st st1 r1 (Fin (3 / 4)) = Inr (st2, hi)"
    and c: "Percentile_st st2 r1 (Fin (1 / 4)) = Inr (st', lo)"
    and v: "v = fsub hi lo"
    by (auto simp: IQR_st_ensure_sorted split: sum.splits prod.splits)
  from ensure_sorted_st_Inr [OF assms(1) a] obtain e0 where
    a': "ensure_sorted (load st r) = Inr (load st1 r1)" and s1: "st1 = st @ e0" and v1: "valid st1 r1"
    by blast
  from Percentile_st_Inr [OF b] obtain e1 where
    b': "Percentile (load st1 r1) (Fin (3 / 4)) = Inr hi" and s2: "st2 = st1 @ e1"
    by blast
  have ld: "load st2 r1 = load st1 r1" using v1 s2 by (simp add: load_extend)
  from Percentile_st_Inr [OF c] obtain e2 where
    c': "Percentile (load st1 r1) (Fin (1 / 4)) = Inr lo" and s3: "st' = st2 @ e2"
    using ld by auto
  have "st' = st @ (e0 @ e1 @ e2)" using s1 s2 s3 by simp
  then have "\<exists>ext. st' = st @ ext" ..
  moreover have "IQR (load st r) = Inr v" using a' b' c' v by (simp add: IQR_ensure_sorted)
  ultimately show ?thesis by blast
qed

lemma IQR_st_Inl:
  assumes "valid st r" and "IQR_st st r = Inl e"
  shows "IQR (load st r) = Inl e"
proof (cases "ensure_sorted_st st r")
  case (Inl e')
  then have "e' = e" using assms(2) by (simp add: IQR_st_ensure_sorted)
  then show ?thesis using ensure_sorted_st_Inl [OF Inl] by (simp add: IQR_ensure_sorted)
next
  case (Inr res)
  obtain st1 r1 where res: "res = (st1, r1)" by (cases res)
  from ensure_sorted_st_Inr [OF assms(1)] Inr res have
    a': "ensure_sorted (load st r) = Inr (load st1 r1)" and v1: "valid st1 r1"
    by auto
  show ?thesis
  proof (cases "Percentile_st st1 r1 (Fin (3 / 4))")
    case (Inl e')
    then have "e' = e" using assms(2) Inr res by (simp add: IQR_st_ensure_sorted)
    then show ?thesis using Percentile_st_Inl [OF Inl] a' by (simp add: IQR_ensure_sorted)
  next
    case (Inr res2)
    obtain st2 hi where res2: "res2 = (st2, hi)" by (cases res2)
    from Percentile_st_Inr [of st1 r1 "Fin (3 / 4)" st2 hi] Inr res2 obtain e1 where
      b': "Percentile (load st1 r1) (Fin (3 / 4)) = Inr hi" and s2: "st2 = st1 @ e1"
      by auto
    have ld: "load st2 r1 = load st1 r1" using v1 s2 by (simp add: load_extend)
    have "Percentile_st st2 r1 (Fin (1 / 4)) = Inl e"
      using assms(2) \<open>ensure_sorted_st st r = Inr res\<close> res Inr res2
      by (auto simp: IQR_st_ensure_sorted split: sum.splits)
    then have "Percentile (load st1 r1) (Fin (1 / 4)) = Inl e"
      using Percentile_st_Inl [of st2 r1 "Fin (1 / 4)" e] ld by simp
    then show ?thesis using a' b' by (simp add: IQR_ensure_sorted)
  qed
qed

text \<open>
  C8.  \<^verbatim>\<open>Percentile\<close> and \<^verbatim>\<open>IQR\<close> do not mutate the receiver: whenever they
  return, every array that was in the store is as it was (the store has only grown),
  so the receiver's values and weights are unchanged, and its flag is the caller's
  own copy.  They return what the functions on values return, an unsorted sample
  being sorted in a copy.
\<close>

theorem C8_Percentile_IQR_frame:
  assumes "valid st r"
  shows "(\<forall>st' v. Percentile_st st r p = Inr (st', v) \<longrightarrow>
            load st' r = load st r \<and> take (length st) st' = st) \<and>
         (\<forall>st' v. IQR_st st r = Inr (st', v) \<longrightarrow>
            load st' r = load st r \<and> take (length st) st' = st) \<and>
         (case Percentile_st st r p of Inl e \<Rightarrow> Inl e | Inr (st', v) \<Rightarrow> Inr v)
           = Percentile (load st r) p \<and>
         (case IQR_st st r of Inl e \<Rightarrow> Inl e | Inr (st', v) \<Rightarrow> Inr v) = IQR (load st r)"
proof -
  have frame: "load st' r = load st r \<and> take (length st) st' = st" if "\<exists>ext. st' = st @ ext" for st'
    using that assms by (auto simp: load_extend)
  have P: "load st' r = load st r \<and> take (length st) st' = st"
    if "Percentile_st st r p = Inr (st', v)" for st' v
    using Percentile_st_Inr [OF that] frame by blast
  have I: "load st' r = load st r \<and> take (length st) st' = st"
    if "IQR_st st r = Inr (st', v)" for st' v
    using IQR_st_Inr [OF assms that] frame by blast
  have Pv: "(case Percentile_st st r p of Inl e \<Rightarrow> Inl e | Inr (st', v) \<Rightarrow> Inr v)
              = Percentile (load st r) p"
  proof (cases "Percentile_st st r p")
    case (Inl e)
    then show ?thesis using Percentile_st_Inl [OF Inl] by simp
  next
    case (Inr res)
    obtain st' v where "res = (st', v)" by (cases res)
    then show ?thesis using Inr Percentile_st_Inr [of st r p st' v] by simp
  qed
  have Iv: "(case IQR_st st r of Inl e \<Rightarrow> Inl e | Inr (st', v) \<Rightarrow> Inr v) = IQR (load st r)"
  proof (cases "IQR_st st r")
    case (Inl e)
    then show ?thesis using IQR_st_Inl [OF assms Inl] by simp
  next
    case (Inr res)
    obtain st' v where "res = (st', v)" by (cases res)
    then show ?thesis using Inr IQR_st_Inr [OF assms, of st' v] by simp
  qed
  show ?thesis using P I Pv Iv by blast
qed



theorem C8_Percentile_IQR_frame_witness:
  "load [[Fin 3, Fin 1, Fin 2], [Fin 1, Fin 1, Fin 1], [Fin 1, Fin 2, Fin 3], [Fin 1, Fin 1, Fin 1]]
      \<lparr>XsRef = Some 0, WeightsRef = Some 1, SortedFlag = False\<rparr>
    = load [[Fin 3, Fin 1, Fin 2], [Fin 1, Fin 1, Fin 1]]
      \<lparr>XsRef = Some 0, WeightsRef = Some 1, SortedFlag = False\<rparr> \<and>
   Percentile_st [[Fin 3, Fin 1, Fin 2], [Fin 1, Fin 1, Fin 1]]
      \<lparr>XsRef = Some 0, WeightsRef = Some 1, SortedFlag = False\<rparr> (Fin (1 / 2))
    = Inr ([[Fin 3, Fin 1, Fin 2], [Fin 1, Fin 1, Fin 1],
            [Fin 1, Fin 2, Fin 3], [Fin 1, Fin 1, Fin 1]], Fin 2) \<and>
   IQR_st [[Fin 3, Fin 1, Fin 2], [Fin 1, Fin 1, Fin 1]]
      \<lparr>XsRef = Some 0, WeightsRef = Some 1, SortedFlag = False\<rparr>
    = Inr ([[Fin 3, Fin 1, Fin 2], [Fin 1, Fin 1, Fin 1],
            [Fin 1, Fin 2, Fin 3], [Fin 1, Fin 1, Fin 1]], Fin 2)"
proof -
  let ?st = "[[Fin 3, Fin 1, Fin 2], [Fin 1, Fin 1, Fin 1]]"
  let ?r = "\<lparr>XsRef = Some 0, WeightsRef = Some 1, SortedFlag = False\<rparr>"
  have v: "valid ?st ?r" by (simp add: valid_def)
  have p: "Percentile_st ?st ?r (Fin (1 / 2))
    = Inr ([[Fin 3, Fin 1, Fin 2], [Fin 1, Fin 1, Fin 1],
            [Fin 1, Fin 2, Fin 3], [Fin 1, Fin 1, Fin 1]], Fin 2)"
    by code_simp
  have i: "IQR_st ?st ?r
    = Inr ([[Fin 3, Fin 1, Fin 2], [Fin 1, Fin 1, Fin 1],
            [Fin 1, Fin 2, Fin 3], [Fin 1, Fin 1, Fin 1]], Fin 2)"
    by code_simp
  from C8_Percentile_IQR_frame [OF v, of "Fin (1 / 2)"] p i show ?thesis by simp
qed

section \<open>Results on removing zero-weight entries\<close>

lemma not_nonzero: "\<not> nonzero w \<longleftrightarrow> w = Fin 0"
  by (cases w) (auto simp: nonzero_def feq_def)

lemma fadd_zero [simp]: "fadd acc (Fin 0) = acc"
  by (cases acc) simp_all

lemma keep_supported_idem:
  "keep_supported (map fst (keep_supported vs ws)) (map snd (keep_supported vs ws))
     = keep_supported vs ws"
  unfolding keep_supported_def zip_map_fst_snd by simp

lemma keep_supported_Cons:
  "keep_supported (x # vs) (w # ws) =
     (if nonzero w then (x, w) # keep_supported vs ws else keep_supported vs ws)"
  by (simp add: keep_supported_def)

lemma supported_keep: "supported vs ws = map fst (keep_supported vs ws)"
  by (simp add: supported_def keep_supported_def)

lemma wbounds_scan_remove:
  "length vs = length ws \<Longrightarrow>
   wbounds_scan (map fst (keep_supported vs ws)) (map snd (keep_supported vs ws)) acc
     = wbounds_scan vs ws acc"
proof (induction vs ws arbitrary: acc rule: list_induct2)
  case Nil
  then show ?case by (simp add: keep_supported_def)
next
  case (Cons x vs w ws)
  obtain mn mx where acc: "acc = (mn, mx)" by (cases acc)
  show ?case using Cons.IH acc by (simp add: keep_supported_Cons)
qed

lemma Bounds_remove:
  assumes "Weights s = Some ws" and "length ws = length (Xs s)"
  shows "Sample_Bounds (remove_zero_weights s) = Sample_Bounds s"
proof -
  let ?k = "keep_supported (Xs s) ws"
  let ?s' = "remove_zero_weights s"
  have s': "Xs ?s' = map fst ?k" "Weights ?s' = Some (map snd ?k)" "Sorted ?s' = Sorted s"
    using assms(1) by (simp_all add: remove_zero_weights_def)
  have sup: "supported (map fst ?k) (map snd ?k) = supported (Xs s) ws"
    by (simp add: supported_keep keep_supported_idem)
  have fs: "first_supported (map fst ?k) (map snd ?k) = first_supported (Xs s) ws"
    and ls: "last_supported (map fst ?k) (map snd ?k) = last_supported (Xs s) ws"
    using sup by (simp_all add: first_supported_def last_supported_def)
  have mn: "min_scan ws (Xs s) 0 = Inr (first_supported (Xs s) ws)"
    using min_scan_supported [of 0 ws "Xs s"] assms(2) by simp
  have mx: "max_scan ws (Xs s) (length ws) = Inr (last_supported (Xs s) ws)"
    using max_scan_supported [of "length ws" ws "Xs s"] assms(2) by simp
  have mn': "min_scan (map snd ?k) (map fst ?k) 0 = Inr (first_supported (Xs s) ws)"
    using min_scan_supported [of 0 "map snd ?k" "map fst ?k"] fs by simp
  have mx': "max_scan (map snd ?k) (map fst ?k) (length ?k) = Inr (last_supported (Xs s) ws)"
    using max_scan_supported [of "length ?k" "map snd ?k" "map fst ?k"] ls by simp
  have wb: "wbounds_scan (map fst ?k) (map snd ?k) acc = wbounds_scan (Xs s) ws acc" for acc
    using wbounds_scan_remove assms(2) by simp
  show ?thesis
  proof (cases "Xs s = []")
    case True
    then have "Xs ?s' = []" using s' by (simp add: keep_supported_def)
    then show ?thesis using True by (simp add: Sample_Bounds_def)
  next
    case False
    show ?thesis
    proof (cases "?k = []")
      case True
      then have none: "supported (Xs s) ws = []" by (simp add: supported_keep)
      have "Sample_Bounds ?s' = Inr (NaN, NaN)"
        using True s' by (simp add: Sample_Bounds_def Bounds_def)
      moreover have "Sample_Bounds s = Inr (NaN, NaN)"
      proof (cases "Sorted s")
        case True
        then show ?thesis using False assms(1) mn none
          by (simp add: Sample_Bounds_def first_supported_def IsNaN_def)
      next
        case unsorted: False
        have "wbounds_scan (Xs s) ws (PosInf, NegInf) = Inr (PosInf, NegInf)"
          using wb [of "(PosInf, NegInf)", symmetric] True by simp
        then show ?thesis using False unsorted assms(1)
          by (simp add: Sample_Bounds_def IsInf0_def)
      qed
      ultimately show ?thesis by simp
    next
      case ne: False
      then show ?thesis using False s' assms(1) mn mx mn' mx' wb
        by (simp add: Sample_Bounds_def)
    qed
  qed
qed

lemma wsum_scan_remove:
  assumes "length vs = length ws" and "\<forall>(x, w)\<in>set (zip vs ws). nonzero w \<or> is_finite x"
  shows "wsum_scan (map fst (keep_supported vs ws)) (map snd (keep_supported vs ws)) acc
           = wsum_scan vs ws acc"
  using assms
proof (induction vs ws arbitrary: acc rule: list_induct2)
  case Nil
  then show ?case by (simp add: keep_supported_def)
next
  case (Cons x vs w ws)
  show ?case
  proof (cases "nonzero w")
    case True
    then show ?thesis using Cons by (simp add: keep_supported_Cons)
  next
    case False
    then have w: "w = Fin 0" by (simp add: not_nonzero)
    from False Cons.prems obtain a where x: "x = Fin a" by (cases x) auto
    show ?thesis using Cons False w x by (simp add: keep_supported_Cons)
  qed
qed

lemma Sum_remove:
  assumes "Weights s = Some ws" and "length ws = length (Xs s)"
    and "\<forall>(x, w)\<in>set (zip (Xs s) ws). nonzero w \<or> is_finite x"
  shows "Sample_Sum (remove_zero_weights s) = Sample_Sum s"
  using assms wsum_scan_remove [of "Xs s" ws "Fin 0"]
  by (simp add: Sample_Sum_def remove_zero_weights_def)

lemma wmean_scan_NaN:
  "length vs = length ws \<Longrightarrow> wmean_scan vs ws (NaN, c) = Inr NaN"
  by (induction vs ws arbitrary: c rule: list_induct2) simp_all

text \<open>
  With all weights zero \<^verbatim>\<open>Bounds\<close> and \<^verbatim>\<open>Mean\<close> do return NaN, and so does
  \<^verbatim>\<open>Percentile\<close> outside \<open>0 < p < 1\<close>.
\<close>

lemma zero_weights_Bounds_Mean:
  assumes "Weights s = Some ws" and "length ws = length (Xs s)" and "\<forall>w\<in>set ws. \<not> nonzero w"
  shows "Sample_Bounds s = Inr (NaN, NaN)" and "Sample_Mean s = Inr NaN"
    and "fle p (Fin 0) \<or> fge p (Fin 1) \<Longrightarrow> Percentile s p = Inr NaN"
proof -
  have k: "keep_supported (Xs s) ws = []"
    using assms(3) by (auto simp: keep_supported_def filter_empty_conv dest: set_zip_rightD)
  then have "Xs (remove_zero_weights s) = []" using assms(1) by (simp add: remove_zero_weights_def)
  then have "Sample_Bounds (remove_zero_weights s) = Inr (NaN, NaN)"
    by (simp add: Sample_Bounds_def Bounds_def)
  then show B: "Sample_Bounds s = Inr (NaN, NaN)" using Bounds_remove [OF assms(1,2)] by simp
  show "Sample_Mean s = Inr NaN"
  proof (cases "Xs s")
    case Nil
    then show ?thesis by (simp add: Sample_Mean_def Mean_def)
  next
    case (Cons x vs)
    then obtain w ws' where ws: "ws = w # ws'" and len: "length vs = length ws'"
      using assms(2) by (cases ws) auto
    have w: "w = Fin 0" using assms(3) ws by (simp add: not_nonzero)
    have "fdiv (fmul (fsub x (Fin 0)) (Fin 0)) (Fin 0) = NaN"
      by (cases x) (simp_all add: fsub_def)
    then have "wmean_scan (Xs s) ws (Fin 0, Fin 0) = wmean_scan vs ws' (NaN, Fin 0)"
      using Cons ws w by simp
    then show ?thesis using wmean_scan_NaN [OF len] assms(1) Cons by (simp add: Sample_Mean_def)
  qed
  show "Percentile s p = Inr NaN" if "fle p (Fin 0) \<or> fge p (Fin 1)"
    using that B by (auto simp: Percentile_def)
qed




end
